theory Spec2Isabelle
  imports Main "HOL-Library.Word"
begin

unbundle bit_operations_syntax

section \<open>Machine types and failures\<close>

text \<open>
  The widths of the C++ integer types are those of the LLP64 data model (64-bit Windows,
  the platform the test harness is written for: it calls \<open>_stricmp\<close>): \<open>int\<close>,
  \<open>unsigned long\<close> and \<open>u32\<close> have 32 bits, \<open>unsigned short\<close> has 16 and
  \<open>size_t\<close> has 64. An \<open>int\<close> is kept as its 32-bit pattern and read in two's
  complement (\<open>sint\<close>, \<open><s\<close>) where the source compares or converts it as signed.
\<close>

type_synonym u32 = "32 word"
type_synonym ulong = "32 word"
type_synonym cint = "32 word"
type_synonym ushort = "16 word"
type_synonym size_t = "64 word"

text \<open>
  What a call can end in instead of a result: a failed \<open>assert\<close> (when assertions are
  compiled in), the dereference of a null pointer, and an access outside an allocated
  array. The last two are undefined behaviour in C++; the model stops at them.
\<close>

datatype error = AssertionFailed | NullPointerDereference | OutOfBounds

text \<open>An array on the heap is a list; \<open>a[i]\<close> is defined only inside it.\<close>

definition load :: "'a list \<Rightarrow> ulong \<Rightarrow> error + 'a" where
  "load a i = (if unat i < length a then Inr (a ! unat i) else Inl OutOfBounds)"

definition store :: "'a list \<Rightarrow> ulong \<Rightarrow> 'a \<Rightarrow> error + 'a list" where
  "store a i v = (if unat i < length a then Inr (a[unat i := v]) else Inl OutOfBounds)"

text \<open>
  \<open>new T[n]\<close> for a POD type leaves the slots with indeterminate values. The model takes
  them from a function \<open>junk\<close> of the slot index, which every theorem leaves arbitrary.
\<close>

definition new_array :: "(nat \<Rightarrow> 'a) \<Rightarrow> nat \<Rightarrow> 'a list" where
  "new_array junk n = map junk [0..<n]"

section \<open>Helpers of Alignment.h\<close>

text \<open>
  Modelled from the spec: \<open>IS_POW2\<close>, a macro of Alignment.h, which is not among the
  sources. The spec asks for a capacity "that is a power of two"; the macro is taken to
  hold exactly for the powers of two of its argument's type, \<open>2 ^ 0\<close>, ..., \<open>2 ^ 63\<close>,
  which are compared with the argument in turn.
\<close>

fun pow2_in_turn :: "nat \<Rightarrow> size_t \<Rightarrow> size_t \<Rightarrow> bool" where
  "pow2_in_turn 0 p n = False"
| "pow2_in_turn (Suc m) p n = (if n = p then True else pow2_in_turn m (2 * p) n)"

definition IS_POW2 :: "size_t \<Rightarrow> bool" where
  "IS_POW2 n = pow2_in_turn 64 1 n"

text \<open>
  Modelled from the spec: \<open>RoundUpToNextPow2\<close>, a function of Alignment.h, which is not
  among the sources. By its name and its use ("round to correct pow2") it returns the
  least power of two that is not below its argument: the first of \<open>2 ^ 0\<close>, ...,
  \<open>2 ^ 31\<close> that is. For an argument above \<open>2 ^ 31\<close> no such 32-bit value exists;
  the model returns 0 there (\<open>2 ^ 32\<close> cut to 32 bits).
\<close>

fun round_in_turn :: "nat \<Rightarrow> u32 \<Rightarrow> u32 \<Rightarrow> u32" where
  "round_in_turn 0 p x = 0"
| "round_in_turn (Suc m) p x = (if x \<le> p then p else round_in_turn m (2 * p) x)"

definition RoundUpToNextPow2 :: "u32 \<Rightarrow> u32" where
  "RoundUpToNextPow2 x = round_in_turn 32 1 x"

section \<open>WaitFreeQueue\<close>

text \<open>
  The fields of \<open>WaitFreeQueue<T>\<close>. \<open>data\<close> is the array the pointer \<open>T *data\<close>
  refers to, with its allocated length. A \<open>T*\<close> into that array is the index of its
  slot, and the null pointer is \<open>None\<close>.
\<close>

record 'a WaitFreeQueue =
  data :: "'a list"
  maxElementsMask :: ulong
  head :: ulong
  tail :: ulong

type_synonym pointer = "ulong option"


text \<open>The locals \<open>head_\<close>, \<open>tail_\<close> of the source are written \<open>head'\<close>, \<open>tail'\<close>.\<close>

definition Size :: "'a WaitFreeQueue \<Rightarrow> ulong" where
  "Size q =
     (let head' = head q; tail' = tail q
      in if tail' \<ge> head' then tail' - head'
         else maxElementsMask q + 1 - (head' - tail'))"

definition Capacity :: "'a WaitFreeQueue \<Rightarrow> cint" where
  "Capacity q = maxElementsMask q"

definition CapacityLeft :: "'a WaitFreeQueue \<Rightarrow> cint" where
  "CapacityLeft q = Capacity q - Size q"

definition Insert :: "'a \<Rightarrow> 'a WaitFreeQueue \<Rightarrow> error + (bool \<times> 'a WaitFreeQueue)" where
  "Insert v q =
     (let tail' = tail q;
          nextTail = (tail' + 1) AND maxElementsMask q
      in if nextTail = head q then Inr (False, q)
         else case store (data q) tail' v of
                Inl e \<Rightarrow> Inl e
              | Inr d \<Rightarrow> Inr (True, q\<lparr>data := d, tail := nextTail\<rparr>))"

definition Front :: "'a WaitFreeQueue \<Rightarrow> pointer" where
  "Front q = (if head q = tail q then None else Some (head q))"

text \<open>\<open>*p\<close> for a pointer into the array of \<open>q\<close>.\<close>

definition deref :: "'a WaitFreeQueue \<Rightarrow> pointer \<Rightarrow> error + 'a" where
  "deref q p = (case p of None \<Rightarrow> Inl NullPointerDereference | Some i \<Rightarrow> load (data q) i)"

definition ItemAt :: "bool \<Rightarrow> 'a WaitFreeQueue \<Rightarrow> cint \<Rightarrow> error + pointer" where
  "ItemAt asserts q index =
     (if asserts \<and> \<not> index <s Size q then Inl AssertionFailed
      else Inr (Some ((head q + index) AND maxElementsMask q)))"

definition PopFront :: "bool \<Rightarrow> 'a WaitFreeQueue \<Rightarrow> error + 'a WaitFreeQueue" where
  "PopFront asserts q =
     (if asserts \<and> \<not> head q \<noteq> tail q then Inl AssertionFailed
      else if head q = tail q then Inr q
      else
        let head' = (ucast ((head q + 1) AND maxElementsMask q) :: size_t)
        in Inr (q\<lparr>head := ucast head'\<rparr>))"

definition TakeFront :: "bool \<Rightarrow> 'a WaitFreeQueue \<Rightarrow> error + ('a \<times> 'a WaitFreeQueue)" where
  "TakeFront asserts q =
     (case deref q (Front q) of
        Inl e \<Rightarrow> Inl e
      | Inr frontVal \<Rightarrow>
          (case PopFront asserts q of
             Inl e \<Rightarrow> Inl e
           | Inr q' \<Rightarrow> Inr (frontVal, q')))"

definition Clear :: "'a WaitFreeQueue \<Rightarrow> 'a WaitFreeQueue" where
  "Clear q = q\<lparr>tail := head q\<rparr>"

text \<open>
  The copying loop of \<open>Resize\<close>: \<open>for(unsigned long i = 0; i < Size(); ++i)
  newData[newTail++] = *ItemAt(i)\<close>. The queue itself is not changed before the loop ends.
\<close>

function Resize_loop ::
  "bool \<Rightarrow> 'a WaitFreeQueue \<Rightarrow> ulong \<Rightarrow> ulong \<Rightarrow> 'a list \<Rightarrow> error + (ulong \<times> 'a list)" where
  "Resize_loop asserts q i newTail newData =
     (if i < Size q then
        (case ItemAt asserts q i of
           Inl e \<Rightarrow> Inl e
         | Inr p \<Rightarrow>
             (case deref q p of
                Inl e \<Rightarrow> Inl e
              | Inr v \<Rightarrow>
                  (case store newData newTail v of
                     Inl e \<Rightarrow> Inl e
                   | Inr newData' \<Rightarrow> Resize_loop asserts q (i + 1) (newTail + 1) newData')))
      else Inr (newTail, newData))"
  by pat_completeness (simp only: prod.inject)
termination
  apply (relation "measure (\<lambda>(asserts, q, i, newTail, newData). unat (Size q) - unat i)")
   apply simp
  apply (simp only: in_measure prod.case)
  subgoal premises p
  proof -
    have step: "unat s - unat (i + 1) < unat s - unat i" if "i < s" for i s :: ulong
    proof -
      from that have less: "unat i < unat s" by (simp add: word_less_nat_alt)
      moreover have "unat s < 2 ^ 32" using unsigned_less [of s] by simp
      ultimately have "unat i + 1 < 2 ^ 32" by linarith
      then have "unat (i + 1) = unat i + 1" by (simp add: unat_word_ariths)
      with less show ?thesis by simp
    qed
    from step [OF p(1)] show ?thesis .
  qed
  done

declare Resize_loop.simps [simp del]

definition Resize :: "bool \<Rightarrow> (nat \<Rightarrow> 'a) \<Rightarrow> size_t \<Rightarrow> 'a WaitFreeQueue \<Rightarrow> error + 'a WaitFreeQueue" where
  "Resize asserts junk newSize q =
     (if asserts \<and> \<not> IS_POW2 newSize then Inl AssertionFailed
      else
        let newSize' = (ucast (RoundUpToNextPow2 (ucast newSize)) :: size_t);
            newData = new_array junk (unat newSize')
        in case Resize_loop asserts q 0 0 newData of
             Inl e \<Rightarrow> Inl e
           | Inr (newTail, newData') \<Rightarrow>
               Inr (q\<lparr>data := newData', head := 0, tail := newTail,
                       maxElementsMask := ucast (newSize' - 1)\<rparr>))"

definition DoubleCapacity :: "bool \<Rightarrow> (nat \<Rightarrow> 'a) \<Rightarrow> 'a WaitFreeQueue \<Rightarrow> error + 'a WaitFreeQueue" where
  "DoubleCapacity asserts junk q = Resize asserts junk (ucast (2 * (maxElementsMask q + 1))) q"

definition InsertWithResize :: "bool \<Rightarrow> (nat \<Rightarrow> 'a) \<Rightarrow> 'a \<Rightarrow> 'a WaitFreeQueue \<Rightarrow> error + 'a WaitFreeQueue" where
  "InsertWithResize asserts junk v q =
     (case Insert v q of
        Inl e \<Rightarrow> Inl e
      | Inr (success, q1) \<Rightarrow>
          if \<not> success then
            (case DoubleCapacity asserts junk q1 of
               Inl e \<Rightarrow> Inl e
             | Inr q2 \<Rightarrow>
                 (case Insert v q2 of
                    Inl e \<Rightarrow> Inl e
                  | Inr (success', q3) \<Rightarrow>
                      if asserts \<and> \<not> success' then Inl AssertionFailed else Inr q3))
          else Inr q1)"

text \<open>
  The loops of the two erasing functions. Their counter \<open>i\<close> and bound are \<open>int\<close>s,
  compared as signed; the index arithmetic is done in \<open>unsigned long\<close>, to which the
  \<open>int\<close>s convert with the same bits.
\<close>

function EraseItemAtMoveFront_loop ::
  "'a WaitFreeQueue \<Rightarrow> cint \<Rightarrow> cint \<Rightarrow> cint \<Rightarrow> error + 'a WaitFreeQueue" where
  "EraseItemAtMoveFront_loop q index numItemsToMove i =
     (if i <s numItemsToMove then
        (case load (data q) ((head q + index + maxElementsMask q + 1 - i - 1) AND maxElementsMask q) of
           Inl e \<Rightarrow> Inl e
         | Inr v \<Rightarrow>
             (case store (data q) ((head q + index + maxElementsMask q + 1 - i) AND maxElementsMask q) v of
                Inl e \<Rightarrow> Inl e
              | Inr d \<Rightarrow> EraseItemAtMoveFront_loop (q\<lparr>data := d\<rparr>) index numItemsToMove (i + 1)))
      else Inr q)"
  by pat_completeness (simp only: prod.inject)
termination
  apply (relation "measure (\<lambda>(q, index, numItemsToMove, i). nat (sint numItemsToMove - sint i))")
   apply simp
  apply (simp only: in_measure prod.case)
  subgoal premises p
  proof -
    have step: "nat (sint n - sint (i + 1)) < nat (sint n - sint i)" if "i <s n" for i n :: cint
    proof -
      from that have less: "sint i < sint n" by (simp add: word_sless_alt)
      moreover have "sint n < 2 ^ 31" using sint_lt [of n] by simp
      moreover have "- (2 ^ 31) \<le> sint i" using sint_ge [of i] by simp
      ultimately have "signed_take_bit 31 (sint i + 1) = sint i + 1"
        by (intro signed_take_bit_int_eq_self) auto
      then have "sint (i + 1) = sint i + 1" by (simp add: sint_word_add)
      with less show ?thesis by simp
    qed
    from step [OF p(1)] show ?thesis .
  qed
  done

declare EraseItemAtMoveFront_loop.simps [simp del]

definition EraseItemAtMoveFront :: "bool \<Rightarrow> cint \<Rightarrow> 'a WaitFreeQueue \<Rightarrow> error + 'a WaitFreeQueue" where
  "EraseItemAtMoveFront asserts index q =
     (if asserts \<and> \<not> Size q > 0 then Inl AssertionFailed
      else
        let numItemsToMove = index
        in case EraseItemAtMoveFront_loop q index numItemsToMove 0 of
             Inl e \<Rightarrow> Inl e
           | Inr q' \<Rightarrow> Inr (q'\<lparr>head := (head q' + 1) AND maxElementsMask q'\<rparr>))"

function EraseItemAtMoveBack_loop ::
  "'a WaitFreeQueue \<Rightarrow> cint \<Rightarrow> cint \<Rightarrow> cint \<Rightarrow> error + 'a WaitFreeQueue" where
  "EraseItemAtMoveBack_loop q index numItemsToMove i =
     (if i <s numItemsToMove then
        (case load (data q) ((head q + index + i + 1) AND maxElementsMask q) of
           Inl e \<Rightarrow> Inl e
         | Inr v \<Rightarrow>
             (case store (data q) ((head q + index + i) AND maxElementsMask q) v of
                Inl e \<Rightarrow> Inl e
              | Inr d \<Rightarrow> EraseItemAtMoveBack_loop (q\<lparr>data := d\<rparr>) index numItemsToMove (i + 1)))
      else Inr q)"
  by pat_completeness (simp only: prod.inject)
termination
  apply (relation "measure (\<lambda>(q, index, numItemsToMove, i). nat (sint numItemsToMove - sint i))")
   apply simp
  apply (simp only: in_measure prod.case)
  subgoal premises p
  proof -
    have step: "nat (sint n - sint (i + 1)) < nat (sint n - sint i)" if "i <s n" for i n :: cint
    proof -
      from that have less: "sint i < sint n" by (simp add: word_sless_alt)
      moreover have "sint n < 2 ^ 31" using sint_lt [of n] by simp
      moreover have "- (2 ^ 31) \<le> sint i" using sint_ge [of i] by simp
      ultimately have "signed_take_bit 31 (sint i + 1) = sint i + 1"
        by (intro signed_take_bit_int_eq_self) auto
      then have "sint (i + 1) = sint i + 1" by (simp add: sint_word_add)
      with less show ?thesis by simp
    qed
    from step [OF p(1)] show ?thesis .
  qed
  done

declare EraseItemAtMoveBack_loop.simps [simp del]

definition EraseItemAtMoveBack :: "bool \<Rightarrow> cint \<Rightarrow> 'a WaitFreeQueue \<Rightarrow> error + 'a WaitFreeQueue" where
  "EraseItemAtMoveBack asserts index q =
     (if asserts \<and> \<not> Size q > 0 then Inl AssertionFailed
      else
        let numItemsToMove = Size q - 1 - index
        in case EraseItemAtMoveBack_loop q index numItemsToMove 0 of
             Inl e \<Rightarrow> Inl e
           | Inr q' \<Rightarrow>
               Inr (q'\<lparr>tail := (tail q' + maxElementsMask q' + 1 - 1) AND maxElementsMask q'\<rparr>))"

definition EraseItemAt :: "bool \<Rightarrow> cint \<Rightarrow> 'a WaitFreeQueue \<Rightarrow> error + 'a WaitFreeQueue" where
  "EraseItemAt asserts index q =
     (if index \<le> drop_bit 1 (Size q) then EraseItemAtMoveFront asserts index q
      else EraseItemAtMoveBack asserts index q)"

section \<open>The in-order test harness\<close>

text \<open>
  Modelled from the spec: the enumerations \<open>SocketTransportLayer\<close> and
  \<open>ConnectionState\<close> of kNet's headers, which are not among the sources. The harness
  names \<open>InvalidTransportLayer\<close>, \<open>ConnectionPending\<close> and \<open>ConnectionOK\<close>; the spec
  gives the transports TCP and UDP and the states Pending, OK, Disconnecting and Closed.
\<close>

datatype SocketTransportLayer = InvalidTransportLayer | SocketOverTCP | SocketOverUDP

datatype ConnectionState =
  ConnectionPending | ConnectionOK | ConnectionDisconnecting | ConnectionClosed

text \<open>What is written to \<open>cout\<close>, one item for each \<open><<\<close>.\<close>

datatype out = Text string | Number nat | Endl

text \<open>
  The harness calls the library, whose code is not among the sources. What those calls
  answer is a parameter of the model: whether \<open>StartServer\<close> and \<open>Connect\<close> return an
  object, what the message handler prints while \<open>RunModalServer\<close> runs (\<open>None\<close> when it
  never returns), the state the \<open>k\<close>-th call of \<open>GetConnectionState\<close> reports, and what
  the handler prints during the 100000 rounds of \<open>Process\<close>, \<open>SendMessage\<close> and
  \<open>Sleep\<close>, which are taken to return.
\<close>

record kNet =
  StringToSocketTransportLayer :: "string \<Rightarrow> SocketTransportLayer"
  atoi :: "string \<Rightarrow> cint"
  StartServer :: "ushort \<Rightarrow> SocketTransportLayer \<Rightarrow> bool"
  RunModalServer :: "out list option"
  Connect :: "string \<Rightarrow> ushort \<Rightarrow> SocketTransportLayer \<Rightarrow> bool"
  GetConnectionState :: "nat \<Rightarrow> ConnectionState"
  ToString :: string
  SendRounds :: "out list"

text \<open>
  \<open>_stricmp\<close> of the C runtime compares two strings ignoring the case of the ASCII
  letters; its result is zero exactly for strings equal in that sense.
\<close>

definition tolower :: "char \<Rightarrow> char" where
  "tolower c =
     (case map_of (zip ''ABCDEFGHIJKLMNOPQRSTUVWXYZ'' ''abcdefghijklmnopqrstuvwxyz'') c of
        Some l \<Rightarrow> l
      | None \<Rightarrow> c)"

fun stricmp :: "string \<Rightarrow> string \<Rightarrow> int" where
  "stricmp [] [] = 0"
| "stricmp [] (y # ys) = - 1"
| "stricmp (x # xs) [] = 1"
| "stricmp (x # xs) (y # ys) =
     (let a = (of_char (tolower x) :: nat); b = (of_char (tolower y) :: nat)
      in if a < b then - 1 else if b < a then 1 else stricmp xs ys)"

definition RunServer :: "kNet \<Rightarrow> ushort \<Rightarrow> SocketTransportLayer \<Rightarrow> out list option" where
  "RunServer E port transport =
     (if \<not> StartServer E port transport
      then Some [Text ''Unable to start server in port '', Number (unat port), Text ''!'', Endl]
      else
        (case RunModalServer E of
           None \<Rightarrow> None
         | Some printed \<Rightarrow>
             Some ([Text ''Server waiting for connection in port '', Number (unat port),
                    Text ''.'', Endl] @ printed)))"

text \<open>
  \<open>while(connection->GetConnectionState() == ConnectionPending) Clock::Sleep(100)\<close>:
  the loop ends only when a state other than pending is seen. Its result is the number
  of state queries made.
\<close>

partial_function (option) wait_while_pending :: "kNet \<Rightarrow> nat \<Rightarrow> nat option" where
  "wait_while_pending E k =
     (if GetConnectionState E k = ConnectionPending then wait_while_pending E (Suc k)
      else Some (Suc k))"

definition RunClient :: "kNet \<Rightarrow> string \<Rightarrow> ushort \<Rightarrow> SocketTransportLayer \<Rightarrow> out list option" where
  "RunClient E address port transport =
     (if \<not> Connect E address port transport
      then Some [Text ''Unable to connect to '', Text address, Text '':'', Number (unat port),
                 Text ''.'', Endl]
      else
        (case wait_while_pending E 0 of
           None \<Rightarrow> None
         | Some k \<Rightarrow>
             if GetConnectionState E k \<noteq> ConnectionOK
             then Some [Text ''Waiting for connection..'', Endl,
                        Text ''Failed to connect to server!'', Endl]
             else Some ([Text ''Waiting for connection..'', Endl,
                         Text ''Connected to '', Text (ToString E), Text ''.'', Endl]
                        @ SendRounds E)))"

definition PrintUsage :: "out list" where
  "PrintUsage =
     [Text ''Usage: '', Endl,
      Text ''       server tcp|udp port'', Endl,
      Text ''       client tcp|udp hostname port'', Endl]"

text \<open>
  \<open>main\<close>: \<open>argv\<close> is the argument vector with the program name first, \<open>argc\<close> its
  length. The result is what was printed and the exit status, or \<open>None\<close> when the
  program does not return.
\<close>

definition main :: "kNet \<Rightarrow> string list \<Rightarrow> (out list \<times> int) option" where
  "main E argv =
     (let argc = int (length argv)
      in if argc < 4 then Some (PrintUsage, 0)
         else
           let transport = StringToSocketTransportLayer E (argv ! 2)
           in if transport = InvalidTransportLayer
              then Some ([Text ''The second parameter is either 'tcp' or 'udp'!'', Endl], 0)
              else if stricmp (argv ! 1) ''server'' = 0 then
                (let port = (ucast (atoi E (argv ! 3)) :: ushort)
                 in case RunServer E port transport of
                      None \<Rightarrow> None
                    | Some printed \<Rightarrow> Some (printed, 0))
              else if stricmp (argv ! 1) ''client'' = 0 then
                (if argc < 5 then Some (PrintUsage, 0)
                 else
                   let hostname = argv ! 3;
                       port = (ucast (atoi E (argv ! 4)) :: ushort)
                   in case RunClient E hostname port transport of
                        None \<Rightarrow> None
                      | Some printed \<Rightarrow> Some (printed, 0))
              else Some ([Text ''The second parameter is either 'server' or 'client'!'', Endl], 0))"

section \<open>States of a queue and what can be read from them\<close>

text \<open>
  The representation invariant: the array has a length \<open>2 ^ k\<close> that fits 32 bits,
  \<open>maxElementsMask\<close> is that length less one, and both indices are inside the array.
\<close>

definition queue_inv :: "'a WaitFreeQueue \<Rightarrow> bool" where
  "queue_inv q =
     ((\<exists>k \<in> {0..<32}. maxElementsMask q = mask k \<and> length (data q) = 2 ^ k)
      \<and> head q \<le> maxElementsMask q \<and> tail q \<le> maxElementsMask q)"

text \<open>
  What a reader of the queue sees: \<open>*ItemAt(0)\<close>, ..., \<open>*ItemAt(Size() - 1)\<close>, each a
  value or the failure of its read.
\<close>

definition item :: "bool \<Rightarrow> 'a WaitFreeQueue \<Rightarrow> nat \<Rightarrow> error + 'a" where
  "item asserts q i =
     (case ItemAt asserts q (of_nat i) of Inl e \<Rightarrow> Inl e | Inr p \<Rightarrow> deref q p)"

definition observable :: "bool \<Rightarrow> 'a WaitFreeQueue \<Rightarrow> (error + 'a) list" where
  "observable asserts q = map (item asserts q) [0..<unat (Size q)]"

text \<open>The same sequence read from the array directly, slot by slot.\<close>

definition elements :: "'a WaitFreeQueue \<Rightarrow> 'a list" where
  "elements q =
     map (\<lambda>i. data q ! ((unat (head q) + i) mod length (data q))) [0..<unat (Size q)]"

text \<open>
  An environment for running \<open>main\<close>: \<open>tcp\<close> and \<open>udp\<close> name the transports, no
  server can be started and no connection made.
\<close>

definition no_network :: kNet where
  "no_network =
     \<lparr>StringToSocketTransportLayer =
        (\<lambda>s. if s = ''tcp'' then SocketOverTCP
             else if s = ''udp'' then SocketOverUDP else InvalidTransportLayer),
      atoi = (\<lambda>s. 1234),
      StartServer = (\<lambda>port transport. False),
      RunModalServer = None,
      Connect = (\<lambda>address port transport. False),
      GetConnectionState = (\<lambda>k. ConnectionPending),
      ToString = [],
      SendRounds = []\<rparr>"

text \<open>
  The states a queue gets into: from a state \<open>q0\<close>, those its public operations lead to
  when they return. \<open>Resize\<close> takes whatever size it is given, without a check against
  the number of elements; which sizes a caller passes is the parameter \<open>sizes\<close>, a
  predicate on the requested size and the state it is requested in. \<open>DoubleCapacity\<close>
  requests \<open>2 * (maxElementsMask + 1)\<close>, and so does \<open>InsertWithResize\<close> when its first
  \<open>Insert\<close> fails.
\<close>

inductive reaches ::
  "(size_t \<Rightarrow> 'a WaitFreeQueue \<Rightarrow> bool) \<Rightarrow> 'a WaitFreeQueue \<Rightarrow> 'a WaitFreeQueue \<Rightarrow> bool"
  for sizes :: "size_t \<Rightarrow> 'a WaitFreeQueue \<Rightarrow> bool" and q0 :: "'a WaitFreeQueue" where
  initial:
    "reaches sizes q0 q0"
| inserted:
    "reaches sizes q0 q \<Longrightarrow> Insert v q = Inr (b, q') \<Longrightarrow> reaches sizes q0 q'"
| resized:
    "reaches sizes q0 q \<Longrightarrow> sizes n q \<Longrightarrow> Resize asserts junk n q = Inr q' \<Longrightarrow>
     reaches sizes q0 q'"
| doubled:
    "reaches sizes q0 q \<Longrightarrow> sizes (ucast (2 * (maxElementsMask q + 1))) q \<Longrightarrow>
     DoubleCapacity asserts junk q = Inr q' \<Longrightarrow> reaches sizes q0 q'"
| inserted_with_resize:
    "reaches sizes q0 q \<Longrightarrow>
     Insert v q = Inr (True, q1) \<or> sizes (ucast (2 * (maxElementsMask q + 1))) q \<Longrightarrow>
     InsertWithResize asserts junk v q = Inr q' \<Longrightarrow> reaches sizes q0 q'"
| popped:
    "reaches sizes q0 q \<Longrightarrow> PopFront asserts q = Inr q' \<Longrightarrow> reaches sizes q0 q'"
| taken:
    "reaches sizes q0 q \<Longrightarrow> TakeFront asserts q = Inr (v, q') \<Longrightarrow> reaches sizes q0 q'"
| cleared:
    "reaches sizes q0 q \<Longrightarrow> reaches sizes q0 (Clear q)"
| erased:
    "reaches sizes q0 q \<Longrightarrow> EraseItemAt asserts index q = Inr q' \<Longrightarrow> reaches sizes q0 q'"





section \<open>A producer and a consumer\<close>


datatype 'a consumer_state = Before_Front | After_Front pointer | After_read 'a

text \<open>
  The queue the threads share, with the values for which \<open>Insert\<close> has returned true
  and the values the consumer has popped, each in the order of the calls.
\<close>

record 'a system =
  queue :: "'a WaitFreeQueue"
  inserted :: "'a list"
  consumer :: "'a consumer_state"
  popped :: "'a list"




chapter \<open>Properties\<close>

section \<open>Words and indices\<close>

lemma and_mask_nat: "unat ((x::ulong) AND mask k) = unat x mod 2 ^ k"
  by (subst take_bit_eq_mask [symmetric], subst unsigned_take_bit_eq) (rule take_bit_eq_mod)

lemma mod_mod_pow2: "k \<le> n \<Longrightarrow> (x mod 2 ^ n) mod 2 ^ k = (x::nat) mod 2 ^ k"
  by (simp add: mod_mod_cancel le_imp_power_dvd)

lemma unat_add_mask: "k \<le> 32 \<Longrightarrow> unat ((a + b :: ulong) AND mask k) = (unat a + unat b) mod 2 ^ k"
  using mod_mod_pow2 [of k 32 "unat a + unat b"] by (simp add: and_mask_nat unat_word_ariths)

lemma unat_mask_ulong: "k < 32 \<Longrightarrow> unat (mask k :: ulong) = 2 ^ k - 1"
proof -
  assume k: "k < 32"
  then have "(2::nat) ^ k < 2 ^ 32" by (intro power_strict_increasing) simp_all
  then have small: "(mask k :: nat) < 2 ^ 32" by (simp add: mask_eq_exp_minus_1 less_imp_diff_less)
  have "unat (mask k :: ulong) = unat (of_nat (mask k) :: ulong)" by (simp add: of_nat_mask_eq)
  also have "\<dots> = (mask k :: nat) mod 2 ^ 32" by (simp add: unat_of_nat)
  also have "\<dots> = mask k" using small by simp
  finally show ?thesis by (simp add: mask_eq_exp_minus_1)
qed

lemma queue_invE:
  assumes "queue_inv q"
  obtains k where "k < 32" "maxElementsMask q = mask k" "length (data q) = 2 ^ k"
    "unat (maxElementsMask q) = 2 ^ k - 1" "unat (head q) < 2 ^ k" "unat (tail q) < 2 ^ k"
proof -
  from assms obtain k where k: "k < 32" "maxElementsMask q = mask k" "length (data q) = 2 ^ k"
    and h: "head q \<le> maxElementsMask q" and t: "tail q \<le> maxElementsMask q"
    by (auto simp: queue_inv_def)
  have m: "unat (maxElementsMask q) = 2 ^ k - 1"
    using k by (simp add: unat_mask_ulong)
  have pos: "(0::nat) < 2 ^ k" by simp
  from h t have "unat (head q) \<le> unat (maxElementsMask q)" "unat (tail q) \<le> unat (maxElementsMask q)"
    by (simp_all add: word_le_nat_alt)
  with m pos have "unat (head q) < 2 ^ k" "unat (tail q) < 2 ^ k"
    by linarith+
  with k m show thesis by (rule that)
qed


lemma uint_small: "unat (x::cint) < 2 ^ 31 \<Longrightarrow> uint x < 2 ^ 31"
proof -
  assume "unat x < 2 ^ 31"
  then have "int (unat x) < int (2 ^ 31)" by (simp only: of_nat_less_iff)
  then have "uint x < int (2 ^ 31)" by (simp only: uint_nat)
  then show ?thesis by simp
qed

lemma sint_uint_small: "uint x < 2 ^ 31 \<Longrightarrow> sint (x::cint) = uint x"
proof -
  assume lt: "uint x < 2 ^ 31"
  have "- (2 ^ 31) \<le> (0::int)" by simp
  also have "0 \<le> uint x" by (rule uint_nonnegative)
  finally have "signed_take_bit 31 (uint x) = uint x"
    using lt by (rule signed_take_bit_int_eq_self)
  then show ?thesis by (simp add: sint_uint)
qed

lemma sint_small: "unat (x::cint) < 2 ^ 31 \<Longrightarrow> sint x = int (unat x)"
  using sint_uint_small [OF uint_small, of x] by (simp only: uint_nat)

lemma pow2_le_31: "k < 32 \<Longrightarrow> (2::nat) ^ k \<le> 2 ^ 31"
  by (intro power_increasing) simp_all

lemma unat_of_nat_small: "n < 2 ^ 32 \<Longrightarrow> unat (of_nat n :: ulong) = n"
  by (simp add: unat_of_nat)

lemma Size_nat:
  assumes "queue_inv q"
  shows "unat (Size q) =
    (if unat (head q) \<le> unat (tail q) then unat (tail q) - unat (head q)
     else length (data q) - (unat (head q) - unat (tail q)))"
proof -
  from assms obtain k where k: "k < 32" "length (data q) = 2 ^ k"
    "unat (maxElementsMask q) = 2 ^ k - 1" "unat (head q) < 2 ^ k" "unat (tail q) < 2 ^ k"
    by (rule queue_invE)
  have le: "(2::nat) ^ k \<le> 2 ^ 31" using k(1) by (rule pow2_le_31)
  show ?thesis
  proof (cases "head q \<le> tail q")
    case True
    then show ?thesis by (simp add: Size_def unat_sub word_le_nat_alt)
  next
    case False
    then have lt: "unat (tail q) < unat (head q)" by (simp add: word_le_nat_alt)
    have m1: "unat (maxElementsMask q + 1) = 2 ^ k"
      using k(3) le by (simp add: unat_word_ariths)
    have d: "unat (head q - tail q) = unat (head q) - unat (tail q)"
      using lt by (simp add: unat_sub word_le_nat_alt)
    have "head q - tail q \<le> maxElementsMask q + 1"
      using m1 d k(4) by (simp add: word_le_nat_alt)
    then have "unat (maxElementsMask q + 1 - (head q - tail q)) = 2 ^ k - (unat (head q) - unat (tail q))"
      using m1 d by (simp add: unat_sub)
    with False lt k(2) show ?thesis by (simp add: Size_def)
  qed
qed

lemma Size_le:
  assumes "queue_inv q"
  shows "unat (Size q) < length (data q)"
proof -
  from assms obtain k where k: "k < 32" "length (data q) = 2 ^ k"
    "unat (maxElementsMask q) = 2 ^ k - 1" "unat (head q) < 2 ^ k" "unat (tail q) < 2 ^ k"
    by (rule queue_invE)
  show ?thesis
  proof (cases "unat (head q) \<le> unat (tail q)")
    case True
    with k(2,5) show ?thesis unfolding Size_nat [OF assms] by simp
  next
    case False
    with k(2,4) show ?thesis unfolding Size_nat [OF assms] by simp
  qed
qed

lemma Size_mod:
  assumes "queue_inv q"
  shows "unat (Size q) = (unat (tail q) + length (data q) - unat (head q)) mod length (data q)"
proof -
  from assms obtain k where k: "k < 32" "length (data q) = 2 ^ k"
    "unat (maxElementsMask q) = 2 ^ k - 1" "unat (head q) < 2 ^ k" "unat (tail q) < 2 ^ k"
    by (rule queue_invE)
  let ?C = "length (data q)" and ?h = "unat (head q)" and ?t = "unat (tail q)"
  from k have hC: "?h < ?C" and tC: "?t < ?C" by simp_all
  show ?thesis
  proof (cases "?h \<le> ?t")
    case True
    then have "?t + ?C - ?h = (?t - ?h) + ?C" by simp
    then have "(?t + ?C - ?h) mod ?C = (?t - ?h) mod ?C" by simp
    also have "\<dots> = ?t - ?h" using tC by simp
    finally show ?thesis using True unfolding Size_nat [OF assms] by simp
  next
    case False
    then have "?t + ?C - ?h < ?C" using hC by linarith
    then have "(?t + ?C - ?h) mod ?C = ?t + ?C - ?h" by simp
    also have "\<dots> = ?C - (?h - ?t)" using False hC by linarith
    finally show ?thesis using False unfolding Size_nat [OF assms] by simp
  qed
qed

lemma slot_nat:
  assumes "queue_inv q"
  shows "unat ((head q + x) AND maxElementsMask q) = (unat (head q) + unat x) mod length (data q)"
proof -
  from assms obtain k where k: "k < 32" "maxElementsMask q = mask k" "length (data q) = 2 ^ k"
    by (rule queue_invE)
  from k(1) have "k \<le> 32" by simp
  then show ?thesis using k(2,3) by (simp add: unat_add_mask)
qed

lemma slot_of_nat:
  assumes "queue_inv q"
  shows "unat ((head q + of_nat i) AND maxElementsMask q) = (unat (head q) + i) mod length (data q)"
proof -
  from assms obtain k where k: "k < 32" "maxElementsMask q = mask k" "length (data q) = 2 ^ k"
    by (rule queue_invE)
  from k(1) have k32: "k \<le> 32" by simp
  have "(unat (head q) + i mod 2 ^ 32) mod 2 ^ k
      = (unat (head q) + (i mod 2 ^ 32) mod 2 ^ k) mod 2 ^ k"
    by (simp only: mod_add_right_eq)
  also have "\<dots> = (unat (head q) + i mod 2 ^ k) mod 2 ^ k"
    by (simp only: mod_mod_pow2 [OF k32])
  also have "\<dots> = (unat (head q) + i) mod 2 ^ k"
    by (simp only: mod_add_right_eq)
  finally have "(unat (head q) + i mod 2 ^ 32) mod 2 ^ k = (unat (head q) + i) mod 2 ^ k" .
  then show ?thesis unfolding slot_nat [OF assms] k(3) unat_of_nat by simp
qed

lemma slot_in_bounds:
  assumes "queue_inv q"
  shows "unat (x AND maxElementsMask q) < length (data q)"
proof -
  from assms obtain k where k: "k < 32" "maxElementsMask q = mask k" "length (data q) = 2 ^ k"
    by (rule queue_invE)
  then show ?thesis by (simp add: and_mask_nat)
qed

section \<open>Insert\<close>

lemma word_of_unat_eq: "unat (w::ulong) = n \<Longrightarrow> w = of_nat n"
  by (drule sym) simp

lemma next_index_nat:
  assumes "queue_inv q"
  shows "unat ((x + 1) AND maxElementsMask q) = (unat x + 1) mod length (data q)"
proof -
  from assms obtain k where k: "k < 32" "maxElementsMask q = mask k" "length (data q) = 2 ^ k"
    by (rule queue_invE)
  from k(1) have "k \<le> 32" by simp
  then show ?thesis using k(2,3) by (simp add: unat_add_mask)
qed

lemma full_iff_Size:
  assumes "queue_inv q"
  shows "((unat (tail q) + 1) mod length (data q) = unat (head q))
     = (unat (Size q) = length (data q) - 1)"
proof -
  from assms obtain k where k: "k < 32" "length (data q) = 2 ^ k"
    "unat (maxElementsMask q) = 2 ^ k - 1" "unat (head q) < 2 ^ k" "unat (tail q) < 2 ^ k"
    by (rule queue_invE)
  let ?C = "length (data q)" and ?h = "unat (head q)" and ?t = "unat (tail q)"
  from k have hC: "?h < ?C" and tC: "?t < ?C" by simp_all
  show ?thesis
  proof (cases "?t + 1 = ?C")
    case True
    then have "(?t + 1) mod ?C = 0" by simp
    moreover have "(unat (Size q) = ?C - 1) = (?h = 0)"
      using True hC unfolding Size_nat [OF assms] by auto
    ultimately show ?thesis by auto
  next
    case False
    with tC have lt: "?t + 1 < ?C" by linarith
    then have "(?t + 1) mod ?C = ?t + 1" by simp
    moreover have "(unat (Size q) = ?C - 1) = (?h = ?t + 1)"
      using hC lt unfolding Size_nat [OF assms] by auto
    ultimately show ?thesis by auto
  qed
qed

lemma Insert_eq:
  assumes "queue_inv q"
  shows "Insert v q =
      (if (unat (tail q) + 1) mod length (data q) = unat (head q) then Inr (False, q)
       else Inr (True, q\<lparr>data := (data q)[unat (tail q) := v],
                          tail := of_nat ((unat (tail q) + 1) mod length (data q))\<rparr>))"
proof -
  from assms obtain k where k: "k < 32" "length (data q) = 2 ^ k"
    "unat (maxElementsMask q) = 2 ^ k - 1" "unat (head q) < 2 ^ k" "unat (tail q) < 2 ^ k"
    by (rule queue_invE)
  let ?next = "(tail q + 1) AND maxElementsMask q"
  have n: "unat ?next = (unat (tail q) + 1) mod length (data q)"
    using assms by (rule next_index_nat)
  then have n': "?next = of_nat ((unat (tail q) + 1) mod length (data q))"
    by (rule word_of_unat_eq)
  have eq: "(?next = head q) = ((unat (tail q) + 1) mod length (data q) = unat (head q))"
    using n by (simp add: word_unat_eq_iff)
  have st: "store (data q) (tail q) v = Inr ((data q)[unat (tail q) := v])"
    using k(2,5) by (simp add: store_def)
  show ?thesis unfolding Insert_def Let_def eq st using n' by simp
qed

lemma Capacity_eq_iff:
  assumes "queue_inv q"
  shows "(Size q = Capacity q) = (unat (Size q) = length (data q) - 1)"
proof -
  from assms obtain k where k: "k < 32" "length (data q) = 2 ^ k"
    "unat (maxElementsMask q) = 2 ^ k - 1"
    by (rule queue_invE)
  then show ?thesis by (simp add: Capacity_def word_unat_eq_iff)
qed

text \<open>
  C2. On every queue that satisfies the representation invariant, \<open>Insert\<close> returns
  false exactly when \<open>(tail + 1) mod C = head\<close>, where \<open>C\<close> is the length of the
  array, and then leaves the queue as it is; otherwise it writes the value into the slot
  at \<open>tail\<close>, sets \<open>tail\<close> to \<open>(tail + 1) mod C\<close> and returns true. The first case is
  the full queue: \<open>Size()\<close> is then \<open>C - 1\<close>, the value of \<open>Capacity()\<close>.
\<close>

theorem Insert_false_iff_full:
  assumes "queue_inv q"
  shows "Insert v q =
      (if (unat (tail q) + 1) mod length (data q) = unat (head q) then Inr (False, q)
       else Inr (True, q\<lparr>data := (data q)[unat (tail q) := v],
                          tail := of_nat ((unat (tail q) + 1) mod length (data q))\<rparr>))
    \<and> (((unat (tail q) + 1) mod length (data q) = unat (head q))
         = (unat (Size q) = length (data q) - 1 \<and> Size q = Capacity q))"
  using Insert_eq [OF assms, of v] full_iff_Size [OF assms] Capacity_eq_iff [OF assms]
  by simp

theorem Insert_false_iff_full_witness:
  "Insert (99::nat) \<lparr>data = [10, 20, 30, 40], maxElementsMask = 3, head = 1, tail = 3\<rparr>
     = Inr (True, \<lparr>data = [10, 20, 30, 99], maxElementsMask = 3, head = 1, tail = 0\<rparr>)
   \<and> Insert (99::nat) \<lparr>data = [10, 20, 30, 40], maxElementsMask = 3, head = 1, tail = 0\<rparr>
     = Inr (False, \<lparr>data = [10, 20, 30, 40], maxElementsMask = 3, head = 1, tail = 0\<rparr>)"
proof -
  have i1: "queue_inv \<lparr>data = [10, 20, 30, 40::nat], maxElementsMask = 3, head = 1, tail = 3\<rparr>"
    by code_simp
  have i2: "queue_inv \<lparr>data = [10, 20, 30, 40::nat], maxElementsMask = 3, head = 1, tail = 0\<rparr>"
    by code_simp
  show ?thesis
    using Insert_false_iff_full [OF i1, of 99] Insert_false_iff_full [OF i2, of 99]
    by simp
qed

section \<open>Reading a queue\<close>

lemma length_elements [simp]: "length (elements q) = unat (Size q)"
  by (simp add: elements_def)

lemma nth_elements:
  "i < unat (Size q) \<Longrightarrow> elements q ! i = data q ! ((unat (head q) + i) mod length (data q))"
  by (simp add: elements_def)

lemma Size_lt_2p31:
  assumes "queue_inv q"
  shows "unat (Size q) < 2 ^ 31"
proof -
  from assms obtain k where k: "k < 32" "length (data q) = 2 ^ k"
    by (rule queue_invE)
  have "unat (Size q) < 2 ^ k" using Size_le [OF assms] k(2) by simp
  also have "(2::nat) ^ k \<le> 2 ^ 31" using k(1) by (rule pow2_le_31)
  finally show ?thesis .
qed

lemma index_sless_Size:
  assumes "queue_inv q" and "i < unat (Size q)"
  shows "(of_nat i :: cint) <s Size q"
proof -
  have s: "unat (Size q) < 2 ^ 31" using assms(1) by (rule Size_lt_2p31)
  with assms(2) have i: "i < 2 ^ 31" by linarith
  then have "i < 2 ^ 32" by simp
  then have u: "unat (of_nat i :: cint) = i" by (rule unat_of_nat_small)
  with i have "sint (of_nat i :: cint) = int i" using sint_small [of "of_nat i"] by simp
  moreover have "sint (Size q) = int (unat (Size q))" using s by (rule sint_small)
  ultimately show ?thesis using assms(2) by (simp only: word_sless_alt of_nat_less_iff)
qed

lemma item_eq:
  assumes "queue_inv q" and "i < unat (Size q)"
  shows "item asserts q i = Inr (elements q ! i)"
proof -
  have a: "(of_nat i :: cint) <s Size q" using assms by (rule index_sless_Size)
  have b: "unat ((head q + of_nat i) AND maxElementsMask q) < length (data q)"
    using assms(1) by (rule slot_in_bounds)
  have c: "unat ((head q + of_nat i) AND maxElementsMask q)
      = (unat (head q) + i) mod length (data q)"
    using assms(1) by (rule slot_of_nat)
  show ?thesis
    using a b by (simp add: item_def ItemAt_def deref_def load_def c nth_elements [OF assms(2)])
qed

lemma observable_elements:
  assumes "queue_inv q"
  shows "observable asserts q = map Inr (elements q)"
proof (rule nth_equalityI)
  show "length (observable asserts q) = length (map Inr (elements q))"
    by (simp add: observable_def)
next
  fix i assume "i < length (observable asserts q)"
  then have i: "i < unat (Size q)" by (simp add: observable_def)
  then show "observable asserts q ! i = map Inr (elements q) ! i"
    by (simp add: observable_def item_eq [OF assms i])
qed

lemma tail_nat:
  assumes "queue_inv q"
  shows "unat (tail q) = (unat (head q) + unat (Size q)) mod length (data q)"
proof -
  from assms obtain k where k: "k < 32" "length (data q) = 2 ^ k"
    "unat (maxElementsMask q) = 2 ^ k - 1" "unat (head q) < 2 ^ k" "unat (tail q) < 2 ^ k"
    by (rule queue_invE)
  let ?C = "length (data q)" and ?h = "unat (head q)" and ?t = "unat (tail q)"
  from k have hC: "?h < ?C" and tC: "?t < ?C" by simp_all
  show ?thesis
  proof (cases "?h \<le> ?t")
    case True
    then have "?h + unat (Size q) = ?t" unfolding Size_nat [OF assms] by simp
    with tC show ?thesis by simp
  next
    case False
    then have "?h + unat (Size q) = ?t + ?C" using hC unfolding Size_nat [OF assms] by simp
    with tC show ?thesis by simp
  qed
qed

lemma mod_add_inj:
  assumes "a < C" "b < C" "(h + a) mod C = (h + b) mod C"
  shows "a = (b::nat)"
proof -
  have *: "x = y" if "x \<le> y" "y < C" "(h + x) mod C = (h + y) mod C" for x y :: nat
  proof -
    from that(1) have "h + x \<le> h + y" by simp
    then have "((h + y) mod C = (h + x) mod C) = (C dvd (h + y) - (h + x))"
      by (rule mod_eq_dvd_iff_nat)
    with that(3) have "C dvd (h + y) - (h + x)" by simp
    then have "C dvd y - x" by simp
    moreover have "y - x < C" using that(2) by simp
    ultimately have "y - x = 0" by (meson dvd_imp_le not_less zero_less_iff_neq_zero)
    with that(1) show ?thesis by simp
  qed
  show ?thesis
  proof (cases "a \<le> b")
    case True
    then show ?thesis using assms(2,3) by (rule *)
  next
    case False
    then have "b \<le> a" by simp
    then have "b = a" using assms(1) assms(3) [symmetric] by (rule *)
    then show ?thesis by simp
  qed
qed

text \<open>
  The number of elements is determined by the two indices: it is the one count below
  the length of the array that leads from \<open>head\<close> to \<open>tail\<close>.
\<close>

lemma Size_unique:
  assumes "queue_inv q" and "n < length (data q)"
    and "unat (tail q) = (unat (head q) + n) mod length (data q)"
  shows "unat (Size q) = n"
proof (rule mod_add_inj)
  show "unat (Size q) < length (data q)" using assms(1) by (rule Size_le)
  show "n < length (data q)" by fact
  show "(unat (head q) + unat (Size q)) mod length (data q) = (unat (head q) + n) mod length (data q)"
    using tail_nat [OF assms(1)] assms(3) by simp
qed

section \<open>Front, PopFront and TakeFront\<close>

lemma ucast_size_t_roundtrip: "(ucast (ucast (x::ulong) :: size_t) :: ulong) = x"
  by (simp add: ucast_up_ucast_id is_up)

lemma unat_index:
  assumes "queue_inv q" and "n < length (data q)"
  shows "unat (of_nat n :: ulong) = n" and "(of_nat n :: ulong) \<le> maxElementsMask q"
proof -
  from assms(1) obtain k where k: "k < 32" "length (data q) = 2 ^ k"
    "unat (maxElementsMask q) = 2 ^ k - 1"
    by (rule queue_invE)
  have "n < 2 ^ k" using assms(2) k(2) by simp
  also have "(2::nat) ^ k \<le> 2 ^ 31" using k(1) by (rule pow2_le_31)
  finally have "n < 2 ^ 32" by simp
  then show u: "unat (of_nat n :: ulong) = n" by (rule unat_of_nat_small)
  from \<open>n < 2 ^ k\<close> have "n \<le> 2 ^ k - 1" by simp
  then show "(of_nat n :: ulong) \<le> maxElementsMask q"
    unfolding word_le_nat_alt u k(3) .
qed

lemma queue_inv_head_update:
  assumes "queue_inv q" and "n < length (data q)"
  shows "queue_inv (q\<lparr>head := of_nat n\<rparr>)"
  using assms(1) unat_index(2) [OF assms] by (simp add: queue_inv_def)

lemma queue_inv_tail_update:
  assumes "queue_inv q" and "n < length (data q)"
  shows "queue_inv (q\<lparr>tail := of_nat n\<rparr>)"
  using assms(1) unat_index(2) [OF assms] by (simp add: queue_inv_def)

lemma length_data_pos: "queue_inv q \<Longrightarrow> 0 < length (data q)"
  by (erule queue_invE) simp

lemma nonempty_iff_Size:
  assumes "queue_inv q"
  shows "(head q \<noteq> tail q) = (0 < unat (Size q))"
proof -
  from assms obtain k where k: "length (data q) = 2 ^ k"
    "unat (head q) < 2 ^ k" "unat (tail q) < 2 ^ k"
    by (rule queue_invE)
  have "(head q = tail q) = (unat (head q) = unat (tail q))"
    by (simp add: word_unat_eq_iff)
  also have "\<dots> = (unat (Size q) = 0)"
    using k unfolding Size_nat [OF assms] by auto
  finally show ?thesis by auto
qed

lemma PopFront_nonempty:
  assumes "queue_inv q" and "head q \<noteq> tail q"
  defines "q' \<equiv> q\<lparr>head := of_nat ((unat (head q) + 1) mod length (data q))\<rparr>"
  shows "PopFront asserts q = Inr q'" and "queue_inv q'"
    and "unat (Size q') = unat (Size q) - 1" and "elements q' = tl (elements q)"
proof -
  let ?C = "length (data q)" and ?h = "unat (head q)" and ?n = "unat (Size q)"
  have Cpos: "0 < ?C" using assms(1) by (rule length_data_pos)
  then have lt: "(?h + 1) mod ?C < ?C" by simp
  have n: "unat ((head q + 1) AND maxElementsMask q) = (?h + 1) mod ?C"
    using assms(1) by (rule next_index_nat)
  then have "(head q + 1) AND maxElementsMask q = of_nat ((?h + 1) mod ?C)"
    by (rule word_of_unat_eq)
  then show pop: "PopFront asserts q = Inr q'"
    using assms(2) by (simp add: PopFront_def q'_def ucast_size_t_roundtrip)
  show inv: "queue_inv q'"
    unfolding q'_def using assms(1) lt by (rule queue_inv_head_update)
  have h': "unat (head q') = (?h + 1) mod ?C"
    unfolding q'_def using unat_index(1) [OF assms(1) lt] by simp
  have pos: "0 < ?n" using nonempty_iff_Size [OF assms(1)] assms(2) by simp
  have nC: "?n < ?C" using assms(1) by (rule Size_le)
  have shift: "((?h + 1) mod ?C + i) mod ?C = (?h + Suc i) mod ?C" for i
    by (simp add: mod_add_left_eq)
  show size: "unat (Size q') = ?n - 1"
  proof (rule Size_unique [OF inv])
    show "?n - 1 < length (data q')" using nC by (simp add: q'_def)
    have "(unat (head q') + (?n - 1)) mod length (data q') = (?h + Suc (?n - 1)) mod ?C"
      unfolding h' using shift [of "?n - 1"] by (simp add: q'_def)
    also have "\<dots> = (?h + ?n) mod ?C" using pos by simp
    also have "\<dots> = unat (tail q)" using tail_nat [OF assms(1)] by simp
    finally show "unat (tail q') = (unat (head q') + (?n - 1)) mod length (data q')"
      by (simp add: q'_def)
  qed
  show "elements q' = tl (elements q)"
  proof (rule nth_equalityI)
    show "length (elements q') = length (tl (elements q))" using size by simp
  next
    fix i assume "i < length (elements q')"
    then have i: "i < ?n - 1" using size by simp
    then have i': "Suc i < ?n" by simp
    have "elements q' ! i = data q ! ((unat (head q') + i) mod ?C)"
      using i size by (simp add: nth_elements q'_def)
    also have "\<dots> = data q ! ((?h + Suc i) mod ?C)" unfolding h' shift ..
    also have "\<dots> = elements q ! Suc i" using i' by (simp add: nth_elements)
    also have "\<dots> = tl (elements q) ! i" using i by (simp add: nth_tl)
    finally show "elements q' ! i = tl (elements q) ! i" .
  qed
qed

lemma Front_nonempty:
  assumes "queue_inv q" and "head q \<noteq> tail q"
  shows "Front q = Some (head q)" and "deref q (Front q) = Inr (data q ! unat (head q))"
    and "deref q (Front q) = hd (observable asserts q)"
proof -
  from assms(1) obtain k where k: "length (data q) = 2 ^ k" "unat (head q) < 2 ^ k"
    by (rule queue_invE)
  show f: "Front q = Some (head q)" using assms(2) by (simp add: Front_def)
  show d: "deref q (Front q) = Inr (data q ! unat (head q))"
    using k by (simp add: f deref_def load_def)
  have pos: "0 < unat (Size q)" using nonempty_iff_Size [OF assms(1)] assms(2) by simp
  then have ne: "elements q \<noteq> []" by (simp flip: length_greater_0_conv)
  have "hd (map Inr (elements q)) = (Inr (hd (elements q)) :: error + 'a)"
    using ne by (rule hd_map)
  also have "hd (elements q) = elements q ! 0" using ne by (rule hd_conv_nth)
  also have "elements q ! 0 = data q ! unat (head q)"
    using pos k by (simp add: nth_elements)
  finally show "deref q (Front q) = hd (observable asserts q)"
    unfolding observable_elements [OF assms(1)] d by simp
qed

text \<open>
  C4. \<open>Front()\<close> returns the null pointer exactly when \<open>head = tail\<close>; otherwise it
  returns the pointer to the slot at index \<open>head\<close>, which holds the first element a
  reader sees. \<open>PopFront()\<close> on a non-empty queue sets \<open>head\<close> to \<open>(head + 1) mod C\<close>
  and changes nothing else: the queue has one element less, and the elements read from
  it are the former ones without the first, in the same order.
\<close>

theorem Front_PopFront_nonempty:
  assumes "queue_inv q"
  shows "((Front q = None) = (head q = tail q))
    \<and> (head q \<noteq> tail q \<longrightarrow>
          Front q = Some (head q)
        \<and> deref q (Front q) = Inr (data q ! unat (head q))
        \<and> deref q (Front q) = hd (observable asserts q))
    \<and> (head q \<noteq> tail q \<longrightarrow>
          PopFront asserts q
            = Inr (q\<lparr>head := of_nat ((unat (head q) + 1) mod length (data q))\<rparr>)
        \<and> (\<forall>q'. PopFront asserts q = Inr q' \<longrightarrow>
              unat (Size q') = unat (Size q) - 1
            \<and> observable asserts q' = tl (observable asserts q)))"
proof (intro conjI impI allI)
  show "(Front q = None) = (head q = tail q)" by (simp add: Front_def)
next
  assume ne: "head q \<noteq> tail q"
  show "Front q = Some (head q)" using assms ne by (rule Front_nonempty(1))
  show "deref q (Front q) = Inr (data q ! unat (head q))"
    using assms ne by (rule Front_nonempty(2))
  show "deref q (Front q) = hd (observable asserts q)"
    using assms ne by (rule Front_nonempty(3))
next
  assume ne: "head q \<noteq> tail q"
  show "PopFront asserts q
      = Inr (q\<lparr>head := of_nat ((unat (head q) + 1) mod length (data q))\<rparr>)"
    using assms ne by (rule PopFront_nonempty(1))
next
  fix q'
  assume ne: "head q \<noteq> tail q" and pop: "PopFront asserts q = Inr q'"
  let ?q = "q\<lparr>head := of_nat ((unat (head q) + 1) mod length (data q))\<rparr>"
  have q': "q' = ?q" using pop PopFront_nonempty(1) [OF assms ne, of asserts] by simp
  show "unat (Size q') = unat (Size q) - 1"
    unfolding q' using assms ne by (rule PopFront_nonempty(3))
  have "elements ?q = tl (elements q)" using assms ne by (rule PopFront_nonempty(4))
  moreover have "queue_inv ?q" using assms ne by (rule PopFront_nonempty(2))
  ultimately show "observable asserts q' = tl (observable asserts q)"
    unfolding q' by (simp add: observable_elements assms map_tl)
qed

theorem Front_PopFront_nonempty_witness:
  "Front \<lparr>data = [10, 20, 30, 40::nat], maxElementsMask = 3, head = 3, tail = 1\<rparr> = Some 3
   \<and> PopFront True \<lparr>data = [10, 20, 30, 40::nat], maxElementsMask = 3, head = 3, tail = 1\<rparr>
       = Inr \<lparr>data = [10, 20, 30, 40], maxElementsMask = 3, head = 0, tail = 1\<rparr>
   \<and> observable True \<lparr>data = [10, 20, 30, 40::nat], maxElementsMask = 3, head = 0, tail = 1\<rparr>
       = tl (observable True \<lparr>data = [10, 20, 30, 40::nat], maxElementsMask = 3, head = 3, tail = 1\<rparr>)"
proof -
  let ?q = "\<lparr>data = [10, 20, 30, 40::nat], maxElementsMask = 3, head = 3, tail = 1\<rparr>"
  have inv: "queue_inv ?q" by code_simp
  have ne: "head ?q \<noteq> tail ?q" by simp
  have pop: "PopFront True ?q
      = Inr \<lparr>data = [10, 20, 30, 40], maxElementsMask = 3, head = 0, tail = 1\<rparr>"
    using Front_PopFront_nonempty [OF inv, of True] ne by simp
  with Front_PopFront_nonempty [OF inv, of True] ne show ?thesis by simp
qed

text \<open>
  C9, as the code has it. On an empty queue (\<open>head = tail\<close>) \<open>PopFront\<close> leaves the
  queue as it is when assertions are compiled out, and stops at its
  \<open>assert(head != tail)\<close> when they are compiled in. \<open>TakeFront\<close> on an empty queue
  dereferences the null pointer that \<open>Front\<close> returns, in either build. On a queue with
  \<open>Size() > 0\<close>, that is with \<open>head \<noteq> tail\<close>, \<open>TakeFront\<close> returns the first element
  and removes it.
\<close>

theorem TakeFront_needs_nonempty:
  "(head q = tail q \<longrightarrow>
        PopFront False q = Inr q
      \<and> PopFront True q = Inl AssertionFailed
      \<and> TakeFront asserts q = Inl NullPointerDereference)
   \<and> (queue_inv q \<longrightarrow> (0 < Size q) = (head q \<noteq> tail q))
   \<and> (queue_inv q \<and> head q \<noteq> tail q \<longrightarrow>
        (\<exists>v q'. TakeFront asserts q = Inr (v, q')
           \<and> hd (observable asserts q) = Inr v
           \<and> PopFront asserts q = Inr q'
           \<and> unat (Size q') = unat (Size q) - 1
           \<and> observable asserts q' = tl (observable asserts q)))"
proof (intro conjI impI)
  assume e: "head q = tail q"
  show "PopFront False q = Inr q" using e by (simp add: PopFront_def)
  show "PopFront True q = Inl AssertionFailed" using e by (simp add: PopFront_def)
  show "TakeFront asserts q = Inl NullPointerDereference"
    using e by (simp add: TakeFront_def Front_def deref_def)
next
  assume inv: "queue_inv q"
  have "(0 < Size q) = (0 < unat (Size q))" by (simp add: word_less_nat_alt)
  then show "(0 < Size q) = (head q \<noteq> tail q)"
    using nonempty_iff_Size [OF inv] by simp
next
  assume "queue_inv q \<and> head q \<noteq> tail q"
  then have inv: "queue_inv q" and ne: "head q \<noteq> tail q" by simp_all
  let ?q = "q\<lparr>head := of_nat ((unat (head q) + 1) mod length (data q))\<rparr>"
  let ?v = "data q ! unat (head q)"
  have pop: "PopFront asserts q = Inr ?q" using inv ne by (rule PopFront_nonempty(1))
  have d: "deref q (Front q) = Inr ?v" using inv ne by (rule Front_nonempty(2))
  have "TakeFront asserts q = Inr (?v, ?q)" by (simp add: TakeFront_def d pop)
  moreover have "hd (observable asserts q) = Inr ?v"
    using Front_nonempty(3) [OF inv ne, of asserts] d by simp
  moreover have "unat (Size ?q) = unat (Size q) - 1" using inv ne by (rule PopFront_nonempty(3))
  moreover have "observable asserts ?q = tl (observable asserts q)"
    using PopFront_nonempty(2,4) [OF inv ne] by (simp add: observable_elements inv map_tl)
  ultimately show "\<exists>v q'. TakeFront asserts q = Inr (v, q')
           \<and> hd (observable asserts q) = Inr v
           \<and> PopFront asserts q = Inr q'
           \<and> unat (Size q') = unat (Size q) - 1
           \<and> observable asserts q' = tl (observable asserts q)"
    using pop by blast
qed

theorem TakeFront_needs_nonempty_witness:
  "PopFront False \<lparr>data = [10, 20, 30, 40::nat], maxElementsMask = 3, head = 2, tail = 2\<rparr>
     = Inr \<lparr>data = [10, 20, 30, 40], maxElementsMask = 3, head = 2, tail = 2\<rparr>
   \<and> TakeFront True \<lparr>data = [10, 20, 30, 40::nat], maxElementsMask = 3, head = 2, tail = 2\<rparr>
     = Inl NullPointerDereference
   \<and> TakeFront True \<lparr>data = [10, 20, 30, 40::nat], maxElementsMask = 3, head = 3, tail = 1\<rparr>
     = Inr (40, \<lparr>data = [10, 20, 30, 40], maxElementsMask = 3, head = 0, tail = 1\<rparr>)"
proof -
  let ?e = "\<lparr>data = [10, 20, 30, 40::nat], maxElementsMask = 3, head = 2, tail = 2\<rparr>"
  let ?q = "\<lparr>data = [10, 20, 30, 40::nat], maxElementsMask = 3, head = 3, tail = 1\<rparr>"
  have inv: "queue_inv ?q" by code_simp
  have obs: "observable True ?q = [Inr 40, Inr 10]" by code_simp
  have pop: "PopFront True ?q
      = Inr \<lparr>data = [10, 20, 30, 40], maxElementsMask = 3, head = 0, tail = 1\<rparr>"
    by code_simp
  from TakeFront_needs_nonempty [of ?q True] inv obtain v q'
    where "TakeFront True ?q = Inr (v, q')" "hd (observable True ?q) = Inr v"
      "PopFront True ?q = Inr q'"
    by auto
  then have "TakeFront True ?q
      = Inr (40, \<lparr>data = [10, 20, 30, 40], maxElementsMask = 3, head = 0, tail = 1\<rparr>)"
    using obs pop by simp
  with TakeFront_needs_nonempty [of ?e True] show ?thesis by simp
qed

theorem PopFront_empty_asserting_counterexample:
  "PopFront True \<lparr>data = [10, 20, 30, 40::nat], maxElementsMask = 3, head = 2, tail = 2\<rparr>
     = Inl AssertionFailed
   \<and> PopFront True \<lparr>data = [10, 20, 30, 40::nat], maxElementsMask = 3, head = 2, tail = 2\<rparr>
     \<noteq> Inr \<lparr>data = [10, 20, 30, 40], maxElementsMask = 3, head = 2, tail = 2\<rparr>"
  by (simp add: PopFront_def)

section \<open>The test harness\<close>

text \<open>
  C7, as the code has it. With at least four arguments, a second argument that names a
  transport, and a first argument that is neither \<open>server\<close> nor \<open>client\<close> (in any
  case of the letters), \<open>main\<close> prints the one line "The second parameter is either
  'server' or 'client'!", which is not the usage text, and returns 0.
\<close>

theorem main_unknown_subcommand:
  assumes "4 \<le> length argv"
    and "StringToSocketTransportLayer E (argv ! 2) \<noteq> InvalidTransportLayer"
    and "stricmp (argv ! 1) ''server'' \<noteq> 0"
    and "stricmp (argv ! 1) ''client'' \<noteq> 0"
  shows "main E argv
      = Some ([Text ''The second parameter is either 'server' or 'client'!'', Endl], 0)
    \<and> [Text ''The second parameter is either 'server' or 'client'!'', Endl] \<noteq> PrintUsage"
  using assms by (simp add: main_def PrintUsage_def)

theorem main_unknown_subcommand_witness:
  "main no_network [''InOrderTest'', ''relay'', ''tcp'', ''1234'']
     = Some ([Text ''The second parameter is either 'server' or 'client'!'', Endl], 0)"
proof -
  have "stricmp ''relay'' ''server'' \<noteq> 0" "stricmp ''relay'' ''client'' \<noteq> 0"
    by (simp_all add: tolower_def)
  then show ?thesis
    using main_unknown_subcommand [of "[''InOrderTest'', ''relay'', ''tcp'', ''1234'']" no_network]
    by (simp add: no_network_def)
qed

theorem main_unknown_subcommand_counterexample:
  "main no_network [''InOrderTest'', ''relay'', ''tcp'', ''1234'']
     = Some ([Text ''The second parameter is either 'server' or 'client'!'', Endl], 0)
   \<and> main no_network [''InOrderTest'', ''relay'', ''tcp'', ''1234'']
     \<noteq> Some (PrintUsage, 0)"
  by (simp add: main_def no_network_def PrintUsage_def tolower_def)

text \<open>
  C8, as the code has it. Whenever \<open>main\<close> returns, it returns 0: after a normal run,
  after a usage error (fewer than four arguments, or \<open>client\<close> with fewer than five)
  and after a network failure (no server started, or no connection made) alike.
\<close>

theorem main_exit_status:
  "(\<forall>printed status. main E argv = Some (printed, status) \<longrightarrow> status = 0)
   \<and> (length argv < 4 \<longrightarrow> main E argv = Some (PrintUsage, 0))
   \<and> (length argv = 4
        \<and> StringToSocketTransportLayer E (argv ! 2) \<noteq> InvalidTransportLayer
        \<and> stricmp (argv ! 1) ''server'' \<noteq> 0 \<and> stricmp (argv ! 1) ''client'' = 0
        \<longrightarrow> main E argv = Some (PrintUsage, 0))
   \<and> (4 \<le> length argv
        \<and> StringToSocketTransportLayer E (argv ! 2) \<noteq> InvalidTransportLayer
        \<and> stricmp (argv ! 1) ''server'' = 0
        \<and> \<not> StartServer E (ucast (atoi E (argv ! 3))) (StringToSocketTransportLayer E (argv ! 2))
        \<longrightarrow> main E argv
            = Some ([Text ''Unable to start server in port '',
                     Number (unat (ucast (atoi E (argv ! 3)) :: ushort)), Text ''!'', Endl], 0))
   \<and> (5 \<le> length argv
        \<and> StringToSocketTransportLayer E (argv ! 2) \<noteq> InvalidTransportLayer
        \<and> stricmp (argv ! 1) ''server'' \<noteq> 0 \<and> stricmp (argv ! 1) ''client'' = 0
        \<and> \<not> Connect E (argv ! 3) (ucast (atoi E (argv ! 4))) (StringToSocketTransportLayer E (argv ! 2))
        \<longrightarrow> main E argv
            = Some ([Text ''Unable to connect to '', Text (argv ! 3), Text '':'',
                     Number (unat (ucast (atoi E (argv ! 4)) :: ushort)), Text ''.'', Endl], 0))"
proof (intro conjI allI impI)
  fix printed status
  assume "main E argv = Some (printed, status)"
  then show "status = 0"
    by (auto simp: main_def Let_def split: if_splits option.splits)
next
  assume "length argv < 4"
  then show "main E argv = Some (PrintUsage, 0)" by (simp add: main_def)
next
  assume "length argv = 4
        \<and> StringToSocketTransportLayer E (argv ! 2) \<noteq> InvalidTransportLayer
        \<and> stricmp (argv ! 1) ''server'' \<noteq> 0 \<and> stricmp (argv ! 1) ''client'' = 0"
  then show "main E argv = Some (PrintUsage, 0)" by (simp add: main_def)
next
  assume "4 \<le> length argv
        \<and> StringToSocketTransportLayer E (argv ! 2) \<noteq> InvalidTransportLayer
        \<and> stricmp (argv ! 1) ''server'' = 0
        \<and> \<not> StartServer E (ucast (atoi E (argv ! 3))) (StringToSocketTransportLayer E (argv ! 2))"
  then show "main E argv
            = Some ([Text ''Unable to start server in port '',
                     Number (unat (ucast (atoi E (argv ! 3)) :: ushort)), Text ''!'', Endl], 0)"
    by (simp add: main_def RunServer_def)
next
  assume "5 \<le> length argv
        \<and> StringToSocketTransportLayer E (argv ! 2) \<noteq> InvalidTransportLayer
        \<and> stricmp (argv ! 1) ''server'' \<noteq> 0 \<and> stricmp (argv ! 1) ''client'' = 0
        \<and> \<not> Connect E (argv ! 3) (ucast (atoi E (argv ! 4))) (StringToSocketTransportLayer E (argv ! 2))"
  then show "main E argv
            = Some ([Text ''Unable to connect to '', Text (argv ! 3), Text '':'',
                     Number (unat (ucast (atoi E (argv ! 4)) :: ushort)), Text ''.'', Endl], 0)"
    by (simp add: main_def RunClient_def)
qed

theorem main_exit_status_witness:
  "main no_network [''InOrderTest''] = Some (PrintUsage, 0)
   \<and> main no_network [''InOrderTest'', ''client'', ''udp'', ''localhost''] = Some (PrintUsage, 0)
   \<and> main no_network [''InOrderTest'', ''server'', ''tcp'', ''1234'']
     = Some ([Text ''Unable to start server in port '', Number 1234, Text ''!'', Endl], 0)
   \<and> main no_network [''InOrderTest'', ''Client'', ''udp'', ''localhost'', ''1234'']
     = Some ([Text ''Unable to connect to '', Text ''localhost'', Text '':'', Number 1234,
              Text ''.'', Endl], 0)"
proof -
  have a: "main no_network [''InOrderTest''] = Some (PrintUsage, 0)"
    using main_exit_status [of no_network "[''InOrderTest'']", THEN conjunct2, THEN conjunct1]
    by simp
  have b: "main no_network [''InOrderTest'', ''client'', ''udp'', ''localhost'']
      = Some (PrintUsage, 0)"
    using main_exit_status [of no_network "[''InOrderTest'', ''client'', ''udp'', ''localhost'']",
        THEN conjunct2, THEN conjunct2, THEN conjunct1]
    by (simp add: no_network_def tolower_def)
  have c: "main no_network [''InOrderTest'', ''server'', ''tcp'', ''1234'']
      = Some ([Text ''Unable to start server in port '', Number 1234, Text ''!'', Endl], 0)"
    using main_exit_status [of no_network "[''InOrderTest'', ''server'', ''tcp'', ''1234'']",
        THEN conjunct2, THEN conjunct2, THEN conjunct2, THEN conjunct1]
    by (simp add: no_network_def tolower_def)
  have d: "main no_network [''InOrderTest'', ''Client'', ''udp'', ''localhost'', ''1234'']
      = Some ([Text ''Unable to connect to '', Text ''localhost'', Text '':'', Number 1234,
               Text ''.'', Endl], 0)"
    using main_exit_status [of no_network
          "[''InOrderTest'', ''Client'', ''udp'', ''localhost'', ''1234'']",
        THEN conjunct2, THEN conjunct2, THEN conjunct2, THEN conjunct2]
    by (simp add: no_network_def tolower_def)
  from a b c d show ?thesis by (intro conjI)
qed

theorem main_exit_status_counterexample:
  "map_option snd (main no_network [''InOrderTest'']) = Some 0
   \<and> map_option snd (main no_network [''InOrderTest'']) \<noteq> Some 1
   \<and> map_option snd (main no_network [''InOrderTest'', ''client'', ''udp'', ''localhost'']) = Some 0
   \<and> map_option snd (main no_network [''InOrderTest'', ''server'', ''tcp'', ''1234'']) = Some 0
   \<and> map_option snd (main no_network [''InOrderTest'', ''server'', ''tcp'', ''1234'']) \<noteq> Some 2"
  by (simp add: main_def no_network_def RunServer_def tolower_def)

section \<open>Sizes and their rounding\<close>

lemma unat_mask_size_t: "k < 64 \<Longrightarrow> unat (mask k :: size_t) = 2 ^ k - 1"
proof -
  assume k: "k < 64"
  then have "(2::nat) ^ k < 2 ^ 64" by (intro power_strict_increasing) simp_all
  then have small: "(mask k :: nat) < 2 ^ 64" by (simp add: mask_eq_exp_minus_1 less_imp_diff_less)
  have "unat (mask k :: size_t) = unat (of_nat (mask k) :: size_t)" by (simp add: of_nat_mask_eq)
  also have "\<dots> = (mask k :: nat) mod 2 ^ 64" by (simp add: unat_of_nat)
  also have "\<dots> = mask k" using small by simp
  finally show ?thesis by (simp add: mask_eq_exp_minus_1)
qed

lemma unat_ucast_up: "unat (ucast (x::u32) :: size_t) = unat x"
proof -
  have "unat x < 2 ^ 32" using unsigned_less [of x] by simp
  then have "unat x < 2 ^ 64" by simp
  then show ?thesis by (simp add: unsigned_ucast_eq take_bit_nat_eq_self)
qed

lemma unat_ucast_down: "unat (ucast (x::size_t) :: u32) = unat x mod 2 ^ 32"
  by (simp add: unsigned_ucast_eq take_bit_eq_mod)

lemma unat_pow2_u32: "k < 32 \<Longrightarrow> unat (2 ^ k :: u32) = 2 ^ k"
proof -
  assume "k < 32"
  then have "(2::nat) ^ k < 2 ^ 32" by (intro power_strict_increasing) simp_all
  then show ?thesis using unat_of_nat [of "2 ^ k", where 'a = 32] by simp
qed

lemma unat_pow2_size_t: "k < 64 \<Longrightarrow> unat (2 ^ k :: size_t) = 2 ^ k"
proof -
  assume "k < 64"
  then have "(2::nat) ^ k < 2 ^ 64" by (intro power_strict_increasing) simp_all
  then show ?thesis using unat_of_nat [of "2 ^ k", where 'a = 64] by simp
qed

lemma pow2_in_turn_iff: "pow2_in_turn m p n = (\<exists>k<m. n = p * 2 ^ k)"
proof (induction m arbitrary: p)
  case 0
  show ?case by simp
next
  case (Suc m)
  have "(\<exists>k<Suc m. n = p * 2 ^ k) = (n = p \<or> (\<exists>k<m. n = 2 * p * 2 ^ k))"
  proof
    assume "\<exists>k<Suc m. n = p * 2 ^ k"
    then obtain k where k: "k < Suc m" "n = p * 2 ^ k" by blast
    show "n = p \<or> (\<exists>k<m. n = 2 * p * 2 ^ k)"
    proof (cases k)
      case 0
      with k show ?thesis by simp
    next
      case (Suc k')
      with k have "k' < m" "n = 2 * p * 2 ^ k'" by simp_all
      then show ?thesis by blast
    qed
  next
    assume "n = p \<or> (\<exists>k<m. n = 2 * p * 2 ^ k)"
    then show "\<exists>k<Suc m. n = p * 2 ^ k"
    proof
      assume "n = p"
      then have "n = p * 2 ^ 0" by simp
      then show ?thesis by blast
    next
      assume "\<exists>k<m. n = 2 * p * 2 ^ k"
      then obtain k where "k < m" "n = 2 * p * 2 ^ k" by blast
      then have "Suc k < Suc m" "n = p * 2 ^ Suc k" by simp_all
      then show ?thesis by blast
    qed
  qed
  then show ?case using Suc.IH [of "2 * p"] by simp
qed

lemma IS_POW2_iff: "IS_POW2 n = (\<exists>k<64. n = 2 ^ k)"
  by (simp add: IS_POW2_def pow2_in_turn_iff)

lemma round_in_turn_least:
  assumes "i + m = 32" and "\<forall>j<i. 2 ^ j < unat x" and "unat x \<le> 2 ^ 31"
  shows "\<exists>k<32. round_in_turn m (2 ^ i) x = 2 ^ k \<and> unat x \<le> 2 ^ k \<and> (\<forall>j<k. 2 ^ j < unat x)"
  using assms(1,2)
proof (induction m arbitrary: i)
  case 0
  then have "i = 32" by simp
  with "0.prems"(2) have "\<forall>j<32. 2 ^ j < unat x" by simp
  from this [rule_format, of 31] have "(2::nat) ^ 31 < unat x" by simp
  with assms(3) show ?case by simp
next
  case (Suc m)
  then have i: "i < 32" by simp
  then have le_iff: "(x \<le> 2 ^ i) = (unat x \<le> 2 ^ i)"
    by (simp add: word_le_nat_alt unat_pow2_u32)
  show ?case
  proof (cases "unat x \<le> 2 ^ i")
    case True
    then have "round_in_turn (Suc m) (2 ^ i) x = 2 ^ i" by (simp add: le_iff)
    with True i Suc.prems(2) show ?thesis by blast
  next
    case False
    then have all: "\<forall>j<Suc i. 2 ^ j < unat x" using Suc.prems(2) by (auto simp: less_Suc_eq)
    have "Suc i + m = 32" using Suc.prems(1) by simp
    then have "\<exists>k<32. round_in_turn m (2 ^ Suc i) x = 2 ^ k \<and> unat x \<le> 2 ^ k
        \<and> (\<forall>j<k. 2 ^ j < unat x)"
      using all by (rule Suc.IH)
    moreover have "round_in_turn (Suc m) (2 ^ i) x = round_in_turn m (2 ^ Suc i) x"
      using False by (simp add: le_iff)
    ultimately show ?thesis by simp
  qed
qed

text \<open>
  For a request of at most \<open>2 ^ 31\<close> the rounded value is the least power of two that
  is not below the request.
\<close>

lemma RoundUpToNextPow2_least:
  assumes "unat x \<le> 2 ^ 31"
  obtains k where "k < 32" "RoundUpToNextPow2 x = 2 ^ k" "unat x \<le> 2 ^ k"
    "\<forall>j<k. 2 ^ j < unat x"
proof -
  have "\<exists>k<32. round_in_turn 32 (2 ^ 0) x = 2 ^ k \<and> unat x \<le> 2 ^ k \<and> (\<forall>j<k. 2 ^ j < unat x)"
    using _ _ assms by (rule round_in_turn_least) simp_all
  then show thesis using that by (auto simp: RoundUpToNextPow2_def)
qed

lemma RoundUpToNextPow2_pow2:
  assumes "j < 32"
  shows "RoundUpToNextPow2 (2 ^ j) = 2 ^ j"
proof -
  have u: "unat (2 ^ j :: u32) = 2 ^ j" using assms by (rule unat_pow2_u32)
  have "(2::nat) ^ j \<le> 2 ^ 31" using assms by (rule pow2_le_31)
  then have "unat (2 ^ j :: u32) \<le> 2 ^ 31" using u by simp
  then obtain k where k: "k < 32" "RoundUpToNextPow2 (2 ^ j) = 2 ^ k"
    "unat (2 ^ j :: u32) \<le> 2 ^ k" "\<forall>i<k. 2 ^ i < unat (2 ^ j :: u32)"
    by (rule RoundUpToNextPow2_least)
  from k(3) have "j \<le> k" unfolding u by simp
  moreover have "\<not> j < k"
  proof
    assume "j < k"
    with k(4) have "(2::nat) ^ j < 2 ^ j" unfolding u by blast
    then show False by simp
  qed
  ultimately have "k = j" by simp
  with k(2) show ?thesis by simp
qed

text \<open>What the constructor and \<open>Resize\<close> compute from a requested size.\<close>

lemma rounded_size:
  assumes "0 < n" and "n \<le> (2 ^ 31 :: size_t)"
  obtains k where "k < 32"
    "(ucast (RoundUpToNextPow2 (ucast n)) :: size_t) = 2 ^ k"
    "unat (ucast (RoundUpToNextPow2 (ucast n)) :: size_t) = 2 ^ k"
    "(ucast ((ucast (RoundUpToNextPow2 (ucast n)) :: size_t) - 1) :: ulong) = mask k"
    "unat n \<le> 2 ^ k" "\<forall>j<k. 2 ^ j < unat n"
    "RoundUpToNextPow2 (ucast n) = 2 ^ k"
proof -
  have "unat n \<le> unat (2 ^ 31 :: size_t)" using assms(2) by (simp add: word_le_nat_alt)
  then have n31: "unat n \<le> 2 ^ 31" by simp
  then have "unat n < 2 ^ 32" by simp
  then have un: "unat (ucast n :: u32) = unat n" by (simp add: unat_ucast_down)
  with n31 have "unat (ucast n :: u32) \<le> 2 ^ 31" by simp
  then obtain k where k: "k < 32" "RoundUpToNextPow2 (ucast n) = 2 ^ k"
    "unat (ucast n :: u32) \<le> 2 ^ k" "\<forall>j<k. 2 ^ j < unat (ucast n :: u32)"
    by (rule RoundUpToNextPow2_least)
  from k(1) have k64: "k < 64" by simp
  have "unat (ucast (2 ^ k :: u32) :: size_t) = unat (2 ^ k :: size_t)"
    using k(1) k64 by (simp only: unat_ucast_up unat_pow2_u32 unat_pow2_size_t)
  then have c: "(ucast (2 ^ k :: u32) :: size_t) = 2 ^ k" by (simp only: word_unat_eq_iff)
  have "(2::nat) ^ k < 2 ^ 32" using k(1) by (intro power_strict_increasing) simp_all
  then have "(2::nat) ^ k - 1 < 2 ^ 32" by (rule less_imp_diff_less)
  then have "unat (ucast (mask k :: size_t) :: ulong) = unat (mask k :: ulong)"
    using k(1) k64 by (simp add: unat_ucast_down unat_mask_size_t unat_mask_ulong)
  then have m: "(ucast (mask k :: size_t) :: ulong) = mask k" by (simp only: word_unat_eq_iff)
  show thesis
  proof (rule that [of k])
    show "k < 32" by fact
    show "(ucast (RoundUpToNextPow2 (ucast n)) :: size_t) = 2 ^ k" unfolding k(2) by (rule c)
    show "unat (ucast (RoundUpToNextPow2 (ucast n)) :: size_t) = 2 ^ k"
      unfolding k(2) c using k64 by (rule unat_pow2_size_t)
    show "(ucast ((ucast (RoundUpToNextPow2 (ucast n)) :: size_t) - 1) :: ulong) = mask k"
      unfolding k(2) c using m by (simp add: mask_eq_exp_minus_1)
    show "unat n \<le> 2 ^ k" using k(3) un by simp
    show "\<forall>j<k. 2 ^ j < unat n" using k(4) un by simp
    show "RoundUpToNextPow2 (ucast n) = 2 ^ k" by fact
  qed
qed

section \<open>Resize\<close>

lemma ItemAt_eq:
  assumes "queue_inv q" and "i < unat (Size q)"
  shows "ItemAt asserts q (of_nat i) = Inr (Some ((head q + of_nat i) AND maxElementsMask q))"
  using index_sless_Size [OF assms] by (simp add: ItemAt_def)

lemma deref_slot:
  assumes "queue_inv q" and "i < unat (Size q)"
  shows "deref q (Some ((head q + of_nat i) AND maxElementsMask q)) = Inr (elements q ! i)"
  using item_eq [OF assms, of asserts] by (simp add: item_def ItemAt_eq [OF assms])

lemma unat_of_nat_Size:
  assumes "queue_inv q" and "i \<le> unat (Size q)"
  shows "unat (of_nat i :: ulong) = i"
proof -
  have "unat (Size q) < 2 ^ 31" using assms(1) by (rule Size_lt_2p31)
  with assms(2) have "i < 2 ^ 32" by simp
  then show ?thesis by (rule unat_of_nat_small)
qed

text \<open>
  The copying loop, entered at index \<open>i\<close> with \<open>newTail = i\<close>: when the new array has
  room for all elements it ends with \<open>newTail = Size()\<close> and has written the elements
  \<open>i\<close>, ..., \<open>Size() - 1\<close> into the slots of the same indices.
\<close>

lemma Resize_loop_copy:
  assumes "queue_inv q" and "i \<le> unat (Size q)" and "unat (Size q) \<le> length nd"
  shows "\<exists>nd'. Resize_loop asserts q (of_nat i) (of_nat i) nd = Inr (Size q, nd')
      \<and> length nd' = length nd
      \<and> (\<forall>j<length nd. nd' ! j = (if i \<le> j \<and> j < unat (Size q) then elements q ! j else nd ! j))"
  using assms(2,3)
proof (induction "unat (Size q) - i" arbitrary: i nd)
  case 0
  then have "i = unat (Size q)" by simp
  then show ?case by (subst Resize_loop.simps) auto
next
  case (Suc d)
  then have lt: "i < unat (Size q)" by simp
  have ui: "unat (of_nat i :: ulong) = i" using assms(1) Suc.prems(1) by (rule unat_of_nat_Size)
  have c: "(of_nat i :: ulong) < Size q" using lt ui by (simp add: word_less_nat_alt)
  have st: "store nd (of_nat i) (elements q ! i) = Inr (nd[i := elements q ! i])"
    using lt Suc.prems(2) ui by (simp add: store_def)
  have "Resize_loop asserts q (of_nat i) (of_nat i) nd
      = Resize_loop asserts q (of_nat i + 1) (of_nat i + 1) (nd[i := elements q ! i])"
    by (subst Resize_loop.simps)
      (simp add: c ItemAt_eq [OF assms(1) lt] deref_slot [OF assms(1) lt] st)
  moreover have "(of_nat i + 1 :: ulong) = of_nat (Suc i)" by simp
  ultimately have step: "Resize_loop asserts q (of_nat i) (of_nat i) nd
      = Resize_loop asserts q (of_nat (Suc i)) (of_nat (Suc i)) (nd[i := elements q ! i])"
    by (simp only:)
  have "d = unat (Size q) - Suc i" using Suc.hyps(2) by simp
  moreover have "Suc i \<le> unat (Size q)" using lt by simp
  moreover have "unat (Size q) \<le> length (nd[i := elements q ! i])" using Suc.prems(2) by simp
  ultimately obtain nd' where nd': "Resize_loop asserts q (of_nat (Suc i)) (of_nat (Suc i))
        (nd[i := elements q ! i]) = Inr (Size q, nd')"
    "length nd' = length (nd[i := elements q ! i])"
    "\<forall>j<length (nd[i := elements q ! i]). nd' ! j =
       (if Suc i \<le> j \<and> j < unat (Size q) then elements q ! j else nd[i := elements q ! i] ! j)"
    using Suc.hyps(1) by blast
  have "\<forall>j<length nd. nd' ! j = (if i \<le> j \<and> j < unat (Size q) then elements q ! j else nd ! j)"
  proof (intro allI impI)
    fix j assume j: "j < length nd"
    show "nd' ! j = (if i \<le> j \<and> j < unat (Size q) then elements q ! j else nd ! j)"
    proof (cases "j = i")
      case True
      with nd'(3) j lt show ?thesis by simp
    next
      case False
      with nd'(3) j show ?thesis by auto
    qed
  qed
  with nd'(1,2) step show ?case by simp
qed

lemma Resize_result:
  assumes inv: "queue_inv q" and n: "0 < n" "n \<le> 2 ^ 31"
    and pow2: "asserts \<longrightarrow> IS_POW2 n"
    and fits: "Size q < RoundUpToNextPow2 (ucast n)"
  obtains q' k where "Resize asserts junk n q = Inr q'" "queue_inv q'"
    "k < 32" "length (data q') = 2 ^ k" "maxElementsMask q' = mask k"
    "unat n \<le> 2 ^ k" "\<forall>j<k. 2 ^ j < unat n"
    "head q' = 0" "tail q' = Size q" "Size q' = Size q" "elements q' = elements q"
proof -
  from n obtain k where k: "k < 32"
    "(ucast (RoundUpToNextPow2 (ucast n)) :: size_t) = 2 ^ k"
    "unat (ucast (RoundUpToNextPow2 (ucast n)) :: size_t) = 2 ^ k"
    "(ucast ((ucast (RoundUpToNextPow2 (ucast n)) :: size_t) - 1) :: ulong) = mask k"
    "unat n \<le> 2 ^ k" "\<forall>j<k. 2 ^ j < unat n"
    "RoundUpToNextPow2 (ucast n) = 2 ^ k"
    by (rule rounded_size)
  let ?nd = "new_array junk (2 ^ k)"
  have len: "length ?nd = 2 ^ k" by (simp add: new_array_def)
  have sz: "unat (Size q) < 2 ^ k"
    using fits k(1) unfolding k(7) word_less_nat_alt by (simp add: unat_pow2_u32)
  then have "unat (Size q) \<le> length ?nd" using len by simp
  with Resize_loop_copy [OF inv, of 0 ?nd asserts]
  obtain nd' where nd': "Resize_loop asserts q 0 0 ?nd = Inr (Size q, nd')"
    "length nd' = 2 ^ k"
    "\<forall>j<2 ^ k. nd' ! j = (if j < unat (Size q) then elements q ! j else ?nd ! j)"
    using len by auto
  define q' where "q' = q\<lparr>data := nd', head := 0, tail := Size q, maxElementsMask := mask k\<rparr>"
  have res: "Resize asserts junk n q = Inr q'"
    using pow2 by (simp add: Resize_def Let_def k(3) k(4) nd'(1) q'_def)
  have um: "unat (mask k :: ulong) = 2 ^ k - 1" using k(1) by (rule unat_mask_ulong)
  have "Size q \<le> mask k" unfolding word_le_nat_alt um using sz by simp
  then have inv': "queue_inv q'"
    unfolding queue_inv_def q'_def using k(1) nd'(2) by auto
  have h0: "unat (head q') = 0" and t: "unat (tail q') = unat (Size q)"
    and l: "length (data q') = 2 ^ k"
    by (simp_all add: q'_def nd'(2))
  have size': "unat (Size q') = unat (Size q)"
    using inv' sz unfolding Size_nat [OF inv'] h0 t l by simp
  have el: "elements q' = elements q"
  proof (rule nth_equalityI)
    show "length (elements q') = length (elements q)" using size' by simp
  next
    fix j assume "j < length (elements q')"
    then have j: "j < unat (Size q)" using size' by simp
    with sz have j2: "j < 2 ^ k" by simp
    have "elements q' ! j = data q' ! ((unat (head q') + j) mod length (data q'))"
      using j size' by (simp add: nth_elements)
    also have "\<dots> = nd' ! j" using j2 by (simp add: h0 l) (simp add: q'_def)
    also have "\<dots> = elements q ! j" using nd'(3) j j2 by simp
    finally show "elements q' ! j = elements q ! j" .
  qed
  show thesis
  proof (rule that [of q' k])
    show "Resize asserts junk n q = Inr q'" by fact
    show "queue_inv q'" by fact
    show "k < 32" by fact
    show "length (data q') = 2 ^ k" by fact
    show "maxElementsMask q' = mask k" by (simp add: q'_def)
    show "unat n \<le> 2 ^ k" by fact
    show "\<forall>j<k. 2 ^ j < unat n" by fact
    show "head q' = 0" by (simp add: q'_def)
    show "tail q' = Size q" by (simp add: q'_def)
    show "Size q' = Size q" using size' by (simp add: word_unat_eq_iff)
    show "elements q' = elements q" by fact
  qed
qed

section \<open>Appending\<close>

lemma Insert_append:
  assumes inv: "queue_inv q" and room: "unat (Size q) \<noteq> length (data q) - 1"
  obtains q' where "Insert v q = Inr (True, q')" "queue_inv q'"
    "length (data q') = length (data q)" "maxElementsMask q' = maxElementsMask q"
    "unat (Size q') = unat (Size q) + 1" "elements q' = elements q @ [v]"
proof -
  let ?C = "length (data q)" and ?h = "unat (head q)" and ?t = "unat (tail q)"
    and ?n = "unat (Size q)"
  define q' where "q' = q\<lparr>data := (data q)[?t := v], tail := of_nat ((?t + 1) mod ?C)\<rparr>"
  have Cpos: "0 < ?C" using inv by (rule length_data_pos)
  then have lt: "(?t + 1) mod ?C < ?C" by simp
  have nC: "?n < ?C" using inv by (rule Size_le)
  with room have n1: "?n + 1 < ?C" by linarith
  have t: "?t = (?h + ?n) mod ?C" using inv by (rule tail_nat)
  then have tC: "?t < ?C" using Cpos by simp
  have ins: "Insert v q = Inr (True, q')"
    using room unfolding Insert_eq [OF inv] full_iff_Size [OF inv] q'_def by simp
  have "queue_inv (q\<lparr>tail := of_nat ((?t + 1) mod ?C)\<rparr>)"
    using inv lt by (rule queue_inv_tail_update)
  then have inv': "queue_inv q'" by (simp add: queue_inv_def q'_def)
  have t': "unat (tail q') = (?t + 1) mod ?C"
    unfolding q'_def using unat_index(1) [OF inv lt] by simp
  have size': "unat (Size q') = ?n + 1"
  proof (rule Size_unique [OF inv'])
    show "?n + 1 < length (data q')" using n1 by (simp add: q'_def)
    have "(?t + 1) mod ?C = ((?h + ?n) mod ?C + 1) mod ?C" using t by simp
    also have "\<dots> = (?h + ?n + 1) mod ?C" by (simp add: mod_Suc_eq)
    finally have "(?t + 1) mod ?C = (?h + ?n + 1) mod ?C" .
    then show "unat (tail q') = (unat (head q') + (?n + 1)) mod length (data q')"
      unfolding t' by (simp add: q'_def add.assoc)
  qed
  have el: "elements q' = elements q @ [v]"
  proof (rule nth_equalityI)
    show "length (elements q') = length (elements q @ [v])" using size' by simp
  next
    fix j assume "j < length (elements q')"
    then have j: "j < ?n + 1" using size' by simp
    have e: "elements q' ! j = (data q)[?t := v] ! ((?h + j) mod ?C)"
      using j size' by (simp add: nth_elements) (simp add: q'_def)
    show "elements q' ! j = (elements q @ [v]) ! j"
    proof (cases "j = ?n")
      case True
      then show ?thesis unfolding e using t tC by (simp add: nth_append)
    next
      case False
      with j have jn: "j < ?n" by simp
      have "(?h + j) mod ?C \<noteq> ?t"
      proof
        assume "(?h + j) mod ?C = ?t"
        then have "(?h + j) mod ?C = (?h + ?n) mod ?C" using t by simp
        with jn nC have "j = ?n" by (intro mod_add_inj [of j ?C ?n ?h]) simp_all
        with False show False by simp
      qed
      then have "(data q)[?t := v] ! ((?h + j) mod ?C) = data q ! ((?h + j) mod ?C)"
        by simp
      then show ?thesis unfolding e using jn by (simp add: nth_append nth_elements)
    qed
  qed
  show thesis
    by (rule that [of q']) (use ins inv' size' el in \<open>simp_all add: q'_def\<close>)
qed

lemma Insert_full:
  assumes inv: "queue_inv q" and full: "unat (Size q) = length (data q) - 1"
  shows "Insert v q = Inr (False, q)"
  using full unfolding Insert_eq [OF inv] full_iff_Size [OF inv] by simp

lemma mask_lt_2p30:
  assumes "k < 32" and "maxElementsMask q = mask k" and "maxElementsMask q < 2 ^ 30"
  shows "k \<le> 30"
proof (rule ccontr)
  assume "\<not> k \<le> 30"
  with assms(1) have "k = 31" by simp
  then have "unat (maxElementsMask q) = 2 ^ 31 - 1"
    using assms(2) unat_mask_ulong [of 31] by simp
  moreover have "unat (maxElementsMask q) < unat (2 ^ 30 :: ulong)"
    using assms(3) by (simp only: word_less_nat_alt)
  ultimately show False by simp
qed

lemma DoubleCapacity_result:
  assumes inv: "queue_inv q" and small: "maxElementsMask q < 2 ^ 30"
  obtains q' where "DoubleCapacity asserts junk q = Inr q'" "queue_inv q'"
    "length (data q') = 2 * length (data q)"
    "Size q' = Size q" "elements q' = elements q"
proof -
  from inv obtain k where k: "k < 32" "maxElementsMask q = mask k" "length (data q) = 2 ^ k"
    by (rule queue_invE)
  have k30: "k \<le> 30" using k(1,2) small by (rule mask_lt_2p30)
  then have k1: "Suc k < 32" by simp
  then have k64: "Suc k < 64" by simp
  let ?n = "(ucast (2 * (maxElementsMask q + 1)) :: size_t)"
  have m: "2 * (maxElementsMask q + 1) = (2 ^ Suc k :: ulong)"
    unfolding k(2) by (simp add: mask_eq_exp_minus_1)
  have "unat ?n = unat (2 ^ Suc k :: size_t)"
    unfolding m using k1 k64 by (simp only: unat_ucast_up unat_pow2_u32 unat_pow2_size_t)
  then have n: "?n = 2 ^ Suc k" by (simp only: word_unat_eq_iff)
  have un: "unat ?n = 2 ^ Suc k" unfolding n using k64 by (rule unat_pow2_size_t)
  have "(2::nat) ^ Suc k \<le> 2 ^ 31" using k1 by (rule pow2_le_31)
  then have "unat ?n \<le> unat (2 ^ 31 :: size_t)" using un by simp
  then have le: "?n \<le> 2 ^ 31" by (simp only: word_le_nat_alt)
  have "0 < unat ?n" using un by simp
  then have pos: "0 < ?n" by (simp add: word_less_nat_alt)
  have p2: "asserts \<longrightarrow> IS_POW2 ?n" unfolding n IS_POW2_iff using k64 by blast
  have "(ucast ?n :: u32) = 2 * (maxElementsMask q + 1)" by (rule ucast_size_t_roundtrip)
  then have "(ucast ?n :: u32) = 2 ^ Suc k" by (simp only: m)
  then have r: "RoundUpToNextPow2 (ucast ?n) = 2 ^ Suc k"
    using RoundUpToNextPow2_pow2 [OF k1] by simp
  have u: "unat (2 ^ Suc k :: u32) = 2 ^ Suc k" using k1 by (rule unat_pow2_u32)
  have "unat (Size q) < 2 ^ k" using Size_le [OF inv] k(3) by simp
  then have "unat (Size q) < 2 ^ Suc k" by simp
  then have "unat (Size q) < unat (2 ^ Suc k :: u32)" by (simp only: u)
  then have fits: "Size q < RoundUpToNextPow2 (ucast ?n)"
    unfolding r by (simp only: word_less_nat_alt)
  from inv pos le p2 fits obtain q' j where q': "Resize asserts junk ?n q = Inr q'"
    "queue_inv q'" "j < 32" "length (data q') = 2 ^ j" "unat ?n \<le> 2 ^ j"
    "\<forall>i<j. 2 ^ i < unat ?n" "Size q' = Size q" "elements q' = elements q"
    by (rule Resize_result)
  have "j = Suc k"
  proof (rule ccontr)
    assume ne: "j \<noteq> Suc k"
    from q'(5) have "(2::nat) ^ Suc k \<le> 2 ^ j" unfolding un .
    then have "Suc k \<le> j" by (rule power_le_imp_le_exp [rotated]) simp
    with ne have "Suc k < j" by simp
    with q'(6) have "(2::nat) ^ Suc k < 2 ^ Suc k" unfolding un by blast
    then show False by simp
  qed
  with q'(4) k(3) have len: "length (data q') = 2 * length (data q)" by simp
  show thesis
    by (rule that [of q']) (use q' len in \<open>simp_all add: DoubleCapacity_def\<close>)
qed

text \<open>
  \<open>InsertWithResize\<close> on a queue whose array has at most \<open>2 ^ 30\<close> slots: the value
  ends up behind the former elements, in an array of twice the length when the queue
  was full and in the same array otherwise.
\<close>

lemma InsertWithResize_result:
  assumes inv: "queue_inv q" and small: "maxElementsMask q < 2 ^ 30"
  obtains q' where "InsertWithResize asserts junk v q = Inr q'" "queue_inv q'"
    "elements q' = elements q @ [v]" "unat (Size q') = unat (Size q) + 1"
    "length (data q') =
       (if unat (Size q) = length (data q) - 1 then 2 * length (data q) else length (data q))"
proof (cases "unat (Size q) = length (data q) - 1")
  case False
  with inv obtain q' where q': "Insert v q = Inr (True, q')" "queue_inv q'"
    "length (data q') = length (data q)"
    "unat (Size q') = unat (Size q) + 1" "elements q' = elements q @ [v]"
    by (rule Insert_append)
  show thesis
    by (rule that [of q']) (use q' False in \<open>simp_all add: InsertWithResize_def\<close>)
next
  case True
  have full: "Insert v q = Inr (False, q)" using inv True by (rule Insert_full)
  from inv small obtain q2 where q2: "DoubleCapacity asserts junk q = Inr q2" "queue_inv q2"
    "length (data q2) = 2 * length (data q)" "Size q2 = Size q" "elements q2 = elements q"
    by (rule DoubleCapacity_result)
  have "0 < length (data q)" using inv by (rule length_data_pos)
  then have "unat (Size q2) \<noteq> length (data q2) - 1"
    unfolding q2(3) q2(4) True by linarith
  with q2(2) obtain q' where q': "Insert v q2 = Inr (True, q')" "queue_inv q'"
    "length (data q') = length (data q2)"
    "unat (Size q') = unat (Size q2) + 1" "elements q' = elements q2 @ [v]"
    by (rule Insert_append)
  show thesis
    by (rule that [of q'])
      (use q' q2 True full in \<open>simp_all add: InsertWithResize_def\<close>)
qed

section \<open>Erasing\<close>

lemma slot_word:
  assumes "queue_inv q"
  shows "unat ((of_nat N :: ulong) AND maxElementsMask q) = N mod length (data q)"
proof -
  from assms obtain k where k: "k < 32" "maxElementsMask q = mask k" "length (data q) = 2 ^ k"
    by (rule queue_invE)
  from k(1) have "k \<le> 32" by simp
  then have "(N mod 2 ^ 32) mod 2 ^ k = N mod 2 ^ k" by (rule mod_mod_pow2)
  then show ?thesis unfolding k(2,3) by (simp add: and_mask_nat unat_of_nat)
qed

lemma mask_plus_1:
  assumes "queue_inv q"
  shows "(of_nat (length (data q)) :: ulong) = maxElementsMask q + 1"
proof -
  from assms obtain k where k: "maxElementsMask q = mask k" "length (data q) = 2 ^ k"
    by (rule queue_invE)
  show ?thesis unfolding k by (simp add: mask_eq_exp_minus_1)
qed

lemma length_data_le:
  assumes "queue_inv q"
  shows "length (data q) \<le> 2 ^ 31"
proof -
  from assms obtain k where k: "k < 32" "length (data q) = 2 ^ k"
    by (rule queue_invE)
  show ?thesis unfolding k(2) using k(1) by (rule pow2_le_31)
qed

lemma sless_of_nat:
  assumes "a < 2 ^ 31" and "b < 2 ^ 31"
  shows "((of_nat a :: cint) <s of_nat b) = (a < b)"
proof -
  from assms have "a < 2 ^ 32" "b < 2 ^ 32" by simp_all
  then have u: "unat (of_nat a :: cint) = a" "unat (of_nat b :: cint) = b"
    by (simp_all add: unat_of_nat_small)
  have "sint (of_nat a :: cint) = int a" "sint (of_nat b :: cint) = int b"
    using sint_small [of "of_nat a"] sint_small [of "of_nat b"] assms unfolding u by simp_all
  then show ?thesis by (simp only: word_sless_alt of_nat_less_iff)
qed

lemma queue_inv_data_update:
  "length d = length (data q) \<Longrightarrow> queue_inv (q\<lparr>data := d\<rparr>) = queue_inv q"
  by (simp add: queue_inv_def)

lemma front_dst_slot:
  assumes "queue_inv q" and "i \<le> x"
  shows "unat ((head q + of_nat x + maxElementsMask q + 1 - of_nat i) AND maxElementsMask q)
      = (unat (head q) + (x - i)) mod length (data q)"
proof -
  let ?h = "unat (head q)" and ?C = "length (data q)"
  have "(of_nat (?h + x + ?C - i) :: ulong) = of_nat (?h + x + ?C) - of_nat i"
    using assms(2) by (intro of_nat_diff) simp
  also have "\<dots> = head q + of_nat x + maxElementsMask q + 1 - of_nat i"
    by (simp add: mask_plus_1 [OF assms(1)])
  finally have "unat ((head q + of_nat x + maxElementsMask q + 1 - of_nat i) AND maxElementsMask q)
      = (?h + x + ?C - i) mod ?C"
    using slot_word [OF assms(1), of "?h + x + ?C - i"] by simp
  also have "?h + x + ?C - i = (?h + (x - i)) + ?C" using assms(2) by simp
  also have "\<dots> mod ?C = (?h + (x - i)) mod ?C" by simp
  finally show ?thesis .
qed

lemma front_src_slot:
  assumes "queue_inv q" and "i < x"
  shows "unat ((head q + of_nat x + maxElementsMask q + 1 - of_nat i - 1) AND maxElementsMask q)
      = (unat (head q) + (x - i - 1)) mod length (data q)"
proof -
  have "head q + of_nat x + maxElementsMask q + 1 - of_nat i - 1
      = head q + of_nat x + maxElementsMask q + 1 - (of_nat (Suc i) :: ulong)"
    by simp
  moreover have "Suc i \<le> x" using assms(2) by simp
  ultimately show ?thesis using front_dst_slot [OF assms(1), of "Suc i" x] by simp
qed

lemma back_dst_slot:
  assumes "queue_inv q"
  shows "unat ((head q + of_nat x + of_nat i) AND maxElementsMask q)
      = (unat (head q) + (x + i)) mod length (data q)"
proof -
  have "head q + of_nat x + of_nat i = head q + (of_nat (x + i) :: ulong)" by simp
  then show ?thesis using slot_of_nat [OF assms, of "x + i"] by (simp only:)
qed

lemma back_src_slot:
  assumes "queue_inv q"
  shows "unat ((head q + of_nat x + of_nat i + 1) AND maxElementsMask q)
      = (unat (head q) + (x + i + 1)) mod length (data q)"
proof -
  have "head q + of_nat x + of_nat i + 1 = head q + (of_nat (x + i + 1) :: ulong)" by simp
  then show ?thesis using slot_of_nat [OF assms, of "x + i + 1"] by (simp only:)
qed

lemma tail_dec_slot:
  assumes "queue_inv q"
  shows "unat ((tail q + maxElementsMask q + 1 - 1) AND maxElementsMask q)
      = (unat (tail q) + length (data q) - 1) mod length (data q)"
proof -
  let ?t = "unat (tail q)" and ?C = "length (data q)"
  have "0 < ?C" using assms by (rule length_data_pos)
  then have "1 \<le> ?t + ?C" by linarith
  then have "(of_nat (?t + ?C - 1) :: ulong) = of_nat (?t + ?C) - of_nat 1"
    by (rule of_nat_diff)
  also have "\<dots> = tail q + maxElementsMask q + 1 - 1"
    by (simp add: mask_plus_1 [OF assms])
  finally show ?thesis using slot_word [OF assms, of "?t + ?C - 1"] by simp
qed

lemma slot_inj:
  assumes "r < length (data q)" and "s < length (data q)"
    and "(unat (head q) + r) mod length (data q) = (unat (head q) + s) mod length (data q)"
  shows "r = s"
  using assms by (rule mod_add_inj)

text \<open>
  The loop of \<open>EraseItemAtMoveFront\<close>, entered with counter \<open>i\<close>: it moves the
  elements at the positions \<open>0\<close>, ..., \<open>index - i - 1\<close> one position towards the back,
  the last of them first, and touches no other slot. A position \<open>p\<close> is the slot
  \<open>(head + p) mod C\<close>.
\<close>

lemma MoveFront_loop_shift:
  assumes "queue_inv q" and "x < length (data q)" and "i \<le> x"
  shows "\<exists>d'. EraseItemAtMoveFront_loop q (of_nat x) (of_nat x) (of_nat i) = Inr (q\<lparr>data := d'\<rparr>)
      \<and> length d' = length (data q)
      \<and> (\<forall>p<length (data q).
            d' ! ((unat (head q) + p) mod length (data q)) =
              (if 1 \<le> p \<and> p \<le> x - i
               then data q ! ((unat (head q) + (p - 1)) mod length (data q))
               else data q ! ((unat (head q) + p) mod length (data q))))"
  using assms
proof (induction "x - i" arbitrary: i q)
  case 0
  then have i: "i = x" by simp
  have "EraseItemAtMoveFront_loop q (of_nat x) (of_nat x) (of_nat x) = Inr (q\<lparr>data := data q\<rparr>)"
    by (subst EraseItemAtMoveFront_loop.simps) simp
  then show ?case unfolding i by (intro exI [of _ "data q"]) auto
next
  case (Suc n)
  let ?C = "length (data q)" and ?h = "unat (head q)"
  let ?pos = "\<lambda>p. (?h + p) mod ?C"
  from Suc have lt: "i < x" by simp
  have Cpos: "0 < ?C" using Suc.prems(1) by (rule length_data_pos)
  have C31: "?C \<le> 2 ^ 31" using Suc.prems(1) by (rule length_data_le)
  with Suc.prems(2) lt have "i < 2 ^ 31" "x < 2 ^ 31" by simp_all
  then have c: "(of_nat i :: cint) <s of_nat x" using lt by (simp add: sless_of_nat)
  have src: "unat ((head q + of_nat x + maxElementsMask q + 1 - of_nat i - 1)
      AND maxElementsMask q) = ?pos (x - i - 1)"
    using Suc.prems(1) lt by (rule front_src_slot)
  have dst: "unat ((head q + of_nat x + maxElementsMask q + 1 - of_nat i)
      AND maxElementsMask q) = ?pos (x - i)"
    using Suc.prems(1) Suc.prems(3) by (rule front_dst_slot)
  define d1 where "d1 = (data q)[?pos (x - i) := data q ! ?pos (x - i - 1)]"
  have len1: "length d1 = ?C" by (simp add: d1_def)
  have ld: "load (data q) ((head q + of_nat x + maxElementsMask q + 1 - of_nat i - 1)
      AND maxElementsMask q) = Inr (data q ! ?pos (x - i - 1))"
    unfolding load_def src using Cpos by simp
  have st: "store (data q) ((head q + of_nat x + maxElementsMask q + 1 - of_nat i)
      AND maxElementsMask q) (data q ! ?pos (x - i - 1)) = Inr d1"
    unfolding store_def dst d1_def using Cpos by simp
  have "EraseItemAtMoveFront_loop q (of_nat x) (of_nat x) (of_nat i)
      = EraseItemAtMoveFront_loop (q\<lparr>data := d1\<rparr>) (of_nat x) (of_nat x) (of_nat i + 1)"
    by (subst EraseItemAtMoveFront_loop.simps) (simp only: c ld st if_True sum.case)
  moreover have "(of_nat i + 1 :: cint) = of_nat (Suc i)" by simp
  ultimately have step: "EraseItemAtMoveFront_loop q (of_nat x) (of_nat x) (of_nat i)
      = EraseItemAtMoveFront_loop (q\<lparr>data := d1\<rparr>) (of_nat x) (of_nat x) (of_nat (Suc i))"
    by (simp only:)
  have inv1: "queue_inv (q\<lparr>data := d1\<rparr>)"
    using Suc.prems(1) len1 by (simp add: queue_inv_data_update)
  have "n = x - Suc i" using Suc.hyps(2) by simp
  moreover have "x < length (data (q\<lparr>data := d1\<rparr>))" using Suc.prems(2) len1 by simp
  moreover have "Suc i \<le> x" using lt by simp
  ultimately have "\<exists>d'. EraseItemAtMoveFront_loop (q\<lparr>data := d1\<rparr>) (of_nat x) (of_nat x)
        (of_nat (Suc i)) = Inr (q\<lparr>data := d1\<rparr>\<lparr>data := d'\<rparr>)
      \<and> length d' = length (data (q\<lparr>data := d1\<rparr>))
      \<and> (\<forall>p<length (data (q\<lparr>data := d1\<rparr>)).
            d' ! ((unat (head (q\<lparr>data := d1\<rparr>)) + p) mod length (data (q\<lparr>data := d1\<rparr>))) =
              (if 1 \<le> p \<and> p \<le> x - Suc i
               then data (q\<lparr>data := d1\<rparr>) !
                 ((unat (head (q\<lparr>data := d1\<rparr>)) + (p - 1)) mod length (data (q\<lparr>data := d1\<rparr>)))
               else data (q\<lparr>data := d1\<rparr>) !
                 ((unat (head (q\<lparr>data := d1\<rparr>)) + p) mod length (data (q\<lparr>data := d1\<rparr>)))))"
    using inv1 by (intro Suc.hyps(1))
  then obtain d' where d': "EraseItemAtMoveFront_loop (q\<lparr>data := d1\<rparr>) (of_nat x) (of_nat x)
        (of_nat (Suc i)) = Inr (q\<lparr>data := d'\<rparr>)"
    "length d' = ?C"
    "\<forall>p<?C. d' ! ?pos p = (if 1 \<le> p \<and> p \<le> x - Suc i then d1 ! ?pos (p - 1) else d1 ! ?pos p)"
    using len1 by auto
  have d1_nth: "d1 ! ?pos r = (if r = x - i then data q ! ?pos (x - i - 1) else data q ! ?pos r)"
    if "r < ?C" for r
  proof (cases "r = x - i")
    case True
    then show ?thesis using Cpos by (simp add: d1_def)
  next
    case False
    have "x - i < ?C" using Suc.prems(2) by simp
    with that False have "?pos r \<noteq> ?pos (x - i)" using slot_inj [of r q "x - i"] by blast
    then show ?thesis using False by (simp add: d1_def)
  qed
  have "\<forall>p<?C. d' ! ?pos p =
      (if 1 \<le> p \<and> p \<le> x - i then data q ! ?pos (p - 1) else data q ! ?pos p)"
  proof (intro allI impI)
    fix p assume p: "p < ?C"
    then have p1: "p - 1 < ?C" by simp
    note dp = d'(3) [rule_format, OF p]
    consider "1 \<le> p \<and> p \<le> x - Suc i" | "p = x - i" | "p = 0 \<or> x - i < p"
      using lt by linarith
    then show "d' ! ?pos p =
        (if 1 \<le> p \<and> p \<le> x - i then data q ! ?pos (p - 1) else data q ! ?pos p)"
    proof cases
      case 1
      then have ne: "p - 1 \<noteq> x - i" and c: "1 \<le> p \<and> p \<le> x - i" using lt by linarith+
      have "d' ! ?pos p = d1 ! ?pos (p - 1)" unfolding dp by (rule if_P) (rule 1)
      also have "\<dots> = data q ! ?pos (p - 1)" using d1_nth [OF p1] ne by simp
      finally show ?thesis unfolding if_P [OF c] .
    next
      case 2
      then have n: "\<not> (1 \<le> p \<and> p \<le> x - Suc i)" and c: "1 \<le> p \<and> p \<le> x - i"
        using lt by linarith+
      have "d' ! ?pos p = d1 ! ?pos p" unfolding dp by (rule if_not_P) (rule n)
      also have "\<dots> = data q ! ?pos (x - i - 1)" using d1_nth [OF p] 2 by simp
      also have "x - i - 1 = p - 1" using 2 by simp
      finally show ?thesis unfolding if_P [OF c] .
    next
      case 3
      then have n: "\<not> (1 \<le> p \<and> p \<le> x - Suc i)" and c: "\<not> (1 \<le> p \<and> p \<le> x - i)"
        and ne: "p \<noteq> x - i"
        using lt by linarith+
      have "d' ! ?pos p = d1 ! ?pos p" unfolding dp by (rule if_not_P) (rule n)
      also have "\<dots> = data q ! ?pos p" using d1_nth [OF p] ne by simp
      finally show ?thesis unfolding if_not_P [OF c] .
    qed
  qed
  with d'(1,2) step show ?case by auto
qed

text \<open>
  The loop of \<open>EraseItemAtMoveBack\<close> with \<open>m\<close> items to move, entered with counter
  \<open>i\<close>: it moves the elements at the positions \<open>index + i + 1\<close>, ..., \<open>index + m\<close> one
  position towards the front, the first of them first, and touches no other slot.
\<close>

lemma MoveBack_loop_shift:
  assumes "queue_inv q" and "x + m < length (data q)" and "i \<le> m"
  shows "\<exists>d'. EraseItemAtMoveBack_loop q (of_nat x) (of_nat m) (of_nat i) = Inr (q\<lparr>data := d'\<rparr>)
      \<and> length d' = length (data q)
      \<and> (\<forall>p<length (data q).
            d' ! ((unat (head q) + p) mod length (data q)) =
              (if x + i \<le> p \<and> p < x + m
               then data q ! ((unat (head q) + (p + 1)) mod length (data q))
               else data q ! ((unat (head q) + p) mod length (data q))))"
  using assms
proof (induction "m - i" arbitrary: i q)
  case 0
  then have i: "i = m" by simp
  have "EraseItemAtMoveBack_loop q (of_nat x) (of_nat m) (of_nat m) = Inr (q\<lparr>data := data q\<rparr>)"
    by (subst EraseItemAtMoveBack_loop.simps) simp
  then show ?case unfolding i by (intro exI [of _ "data q"]) auto
next
  case (Suc n)
  let ?C = "length (data q)" and ?h = "unat (head q)"
  let ?pos = "\<lambda>p. (?h + p) mod ?C"
  from Suc have lt: "i < m" by simp
  have Cpos: "0 < ?C" using Suc.prems(1) by (rule length_data_pos)
  have C31: "?C \<le> 2 ^ 31" using Suc.prems(1) by (rule length_data_le)
  with Suc.prems(2) lt have "i < 2 ^ 31" "m < 2 ^ 31" by simp_all
  then have c: "(of_nat i :: cint) <s of_nat m" using lt by (simp add: sless_of_nat)
  have src: "unat ((head q + of_nat x + of_nat i + 1) AND maxElementsMask q) = ?pos (x + i + 1)"
    using Suc.prems(1) by (rule back_src_slot)
  have dst: "unat ((head q + of_nat x + of_nat i) AND maxElementsMask q) = ?pos (x + i)"
    using Suc.prems(1) by (rule back_dst_slot)
  define d1 where "d1 = (data q)[?pos (x + i) := data q ! ?pos (x + i + 1)]"
  have len1: "length d1 = ?C" by (simp add: d1_def)
  have ld: "load (data q) ((head q + of_nat x + of_nat i + 1) AND maxElementsMask q)
      = Inr (data q ! ?pos (x + i + 1))"
    unfolding load_def src using Cpos by simp
  have st: "store (data q) ((head q + of_nat x + of_nat i) AND maxElementsMask q)
      (data q ! ?pos (x + i + 1)) = Inr d1"
    unfolding store_def dst d1_def using Cpos by simp
  have "EraseItemAtMoveBack_loop q (of_nat x) (of_nat m) (of_nat i)
      = EraseItemAtMoveBack_loop (q\<lparr>data := d1\<rparr>) (of_nat x) (of_nat m) (of_nat i + 1)"
    by (subst EraseItemAtMoveBack_loop.simps) (simp only: c ld st if_True sum.case)
  moreover have "(of_nat i + 1 :: cint) = of_nat (Suc i)" by simp
  ultimately have step: "EraseItemAtMoveBack_loop q (of_nat x) (of_nat m) (of_nat i)
      = EraseItemAtMoveBack_loop (q\<lparr>data := d1\<rparr>) (of_nat x) (of_nat m) (of_nat (Suc i))"
    by (simp only:)
  have inv1: "queue_inv (q\<lparr>data := d1\<rparr>)"
    using Suc.prems(1) len1 by (simp add: queue_inv_data_update)
  have "n = m - Suc i" using Suc.hyps(2) by simp
  moreover have "x + m < length (data (q\<lparr>data := d1\<rparr>))" using Suc.prems(2) len1 by simp
  moreover have "Suc i \<le> m" using lt by simp
  ultimately have "\<exists>d'. EraseItemAtMoveBack_loop (q\<lparr>data := d1\<rparr>) (of_nat x) (of_nat m)
        (of_nat (Suc i)) = Inr (q\<lparr>data := d1\<rparr>\<lparr>data := d'\<rparr>)
      \<and> length d' = length (data (q\<lparr>data := d1\<rparr>))
      \<and> (\<forall>p<length (data (q\<lparr>data := d1\<rparr>)).
            d' ! ((unat (head (q\<lparr>data := d1\<rparr>)) + p) mod length (data (q\<lparr>data := d1\<rparr>))) =
              (if x + Suc i \<le> p \<and> p < x + m
               then data (q\<lparr>data := d1\<rparr>) !
                 ((unat (head (q\<lparr>data := d1\<rparr>)) + (p + 1)) mod length (data (q\<lparr>data := d1\<rparr>)))
               else data (q\<lparr>data := d1\<rparr>) !
                 ((unat (head (q\<lparr>data := d1\<rparr>)) + p) mod length (data (q\<lparr>data := d1\<rparr>)))))"
    using inv1 by (intro Suc.hyps(1))
  then obtain d' where d': "EraseItemAtMoveBack_loop (q\<lparr>data := d1\<rparr>) (of_nat x) (of_nat m)
        (of_nat (Suc i)) = Inr (q\<lparr>data := d'\<rparr>)"
    "length d' = ?C"
    "\<forall>p<?C. d' ! ?pos p = (if x + Suc i \<le> p \<and> p < x + m then d1 ! ?pos (p + 1) else d1 ! ?pos p)"
    using len1 by auto
  have d1_nth: "d1 ! ?pos r = (if r = x + i then data q ! ?pos (x + i + 1) else data q ! ?pos r)"
    if "r < ?C" for r
  proof (cases "r = x + i")
    case True
    then show ?thesis using Cpos by (simp add: d1_def)
  next
    case False
    have "x + i < ?C" using Suc.prems(2) lt by simp
    with that False have "?pos r \<noteq> ?pos (x + i)" using slot_inj [of r q "x + i"] by blast
    then show ?thesis using False by (simp add: d1_def)
  qed
  have "\<forall>p<?C. d' ! ?pos p =
      (if x + i \<le> p \<and> p < x + m then data q ! ?pos (p + 1) else data q ! ?pos p)"
  proof (intro allI impI)
    fix p assume p: "p < ?C"
    note dp = d'(3) [rule_format, OF p]
    consider "x + Suc i \<le> p \<and> p < x + m" | "p = x + i" | "p < x + i \<or> x + m \<le> p"
      by linarith
    then show "d' ! ?pos p =
        (if x + i \<le> p \<and> p < x + m then data q ! ?pos (p + 1) else data q ! ?pos p)"
    proof cases
      case 1
      then have ne: "p + 1 \<noteq> x + i" and p1: "p + 1 < ?C" and c: "x + i \<le> p \<and> p < x + m"
        using Suc.prems(2) by linarith+
      have "d' ! ?pos p = d1 ! ?pos (p + 1)" unfolding dp by (rule if_P) (rule 1)
      also have "\<dots> = data q ! ?pos (p + 1)" using d1_nth [OF p1] ne by simp
      finally show ?thesis unfolding if_P [OF c] .
    next
      case 2
      then have n: "\<not> (x + Suc i \<le> p \<and> p < x + m)" and c: "x + i \<le> p \<and> p < x + m"
        using lt by linarith+
      have "d' ! ?pos p = d1 ! ?pos p" unfolding dp by (rule if_not_P) (rule n)
      also have "\<dots> = data q ! ?pos (x + i + 1)" using d1_nth [OF p] 2 by simp
      also have "x + i + 1 = p + 1" using 2 by simp
      finally show ?thesis unfolding if_P [OF c] .
    next
      case 3
      then have n: "\<not> (x + Suc i \<le> p \<and> p < x + m)" and c: "\<not> (x + i \<le> p \<and> p < x + m)"
        and ne: "p \<noteq> x + i"
        using lt by linarith+
      have "d' ! ?pos p = d1 ! ?pos p" unfolding dp by (rule if_not_P) (rule n)
      also have "\<dots> = data q ! ?pos p" using d1_nth [OF p] ne by simp
      finally show ?thesis unfolding if_not_P [OF c] .
    qed
  qed
  with d'(1,2) step show ?case by auto
qed

lemma nth_without:
  assumes "x < length e" and "j < length e - 1"
  shows "(take x e @ drop (Suc x) e) ! j = (if j < x then e ! j else e ! Suc j)"
proof (cases "j < x")
  case True
  then show ?thesis using assms by (simp add: nth_append)
next
  case False
  then have "Suc x + (j - x) = Suc j" by simp
  then show ?thesis using False assms by (simp add: nth_append min_def)
qed

lemma length_without:
  assumes "x < length e"
  shows "length (take x e @ drop (Suc x) e) = length e - 1"
  using assms by simp

lemma Size_data_update [simp]: "Size (q\<lparr>data := d\<rparr>) = Size q"
  by (simp add: Size_def Let_def)

lemma Size_pos:
  assumes "queue_inv q" and "x < unat (Size q)"
  shows "0 < Size q" and "head q \<noteq> tail q"
proof -
  from assms(2) have "0 < unat (Size q)" by simp
  then show "0 < Size q" by (simp add: word_less_nat_alt)
  from \<open>0 < unat (Size q)\<close> show "head q \<noteq> tail q"
    using nonempty_iff_Size [OF assms(1)] by simp
qed

lemma EraseItemAtMoveFront_result:
  assumes inv: "queue_inv q" and x: "x < unat (Size q)"
  obtains q' where "EraseItemAtMoveFront asserts (of_nat x) q = Inr q'" "queue_inv q'"
    "unat (Size q') = unat (Size q) - 1"
    "elements q' = take x (elements q) @ drop (Suc x) (elements q)"
proof -
  let ?C = "length (data q)" and ?h = "unat (head q)" and ?n = "unat (Size q)"
  let ?pos = "\<lambda>p. (?h + p) mod ?C"
  have nC: "?n < ?C" using inv by (rule Size_le)
  with x have xC: "x < ?C" by simp
  have pos: "0 < Size q" and ne: "head q \<noteq> tail q" using inv x by (rule Size_pos)+
  from MoveFront_loop_shift [OF inv xC, of 0]
  obtain d' where d': "EraseItemAtMoveFront_loop q (of_nat x) (of_nat x) 0 = Inr (q\<lparr>data := d'\<rparr>)"
    "length d' = ?C"
    "\<forall>p<?C. d' ! ?pos p = (if 1 \<le> p \<and> p \<le> x then data q ! ?pos (p - 1) else data q ! ?pos p)"
    by auto
  let ?qp = "q\<lparr>head := of_nat ((?h + 1) mod ?C)\<rparr>"
  define q' where "q' = ?qp\<lparr>data := d'\<rparr>"
  have n: "(head q + 1) AND maxElementsMask q = of_nat ((?h + 1) mod ?C)"
    using next_index_nat [OF inv, of "head q"] by (rule word_of_unat_eq)
  have res: "EraseItemAtMoveFront asserts (of_nat x) q = Inr q'"
    using pos by (simp add: EraseItemAtMoveFront_def d'(1) n q'_def)
  have invp: "queue_inv ?qp" and sizep: "unat (Size ?qp) = ?n - 1"
    using PopFront_nonempty(2,3) [OF inv ne] by simp_all
  have inv': "queue_inv q'" unfolding q'_def using invp d'(2) by (simp add: queue_inv_data_update)
  have size': "unat (Size q') = ?n - 1" unfolding q'_def using sizep by simp
  have Cpos: "0 < ?C" using inv by (rule length_data_pos)
  then have "(?h + 1) mod ?C < ?C" by simp
  then have h': "unat (head q') = (?h + 1) mod ?C"
    unfolding q'_def using unat_index(1) [OF inv] by simp
  have el: "elements q' = take x (elements q) @ drop (Suc x) (elements q)"
  proof (rule nth_equalityI)
    show "length (elements q') = length (take x (elements q) @ drop (Suc x) (elements q))"
      using size' x by simp
  next
    fix j assume "j < length (elements q')"
    then have j: "j < ?n - 1" using size' by simp
    then have j1: "Suc j < ?n" by simp
    with nC have j1C: "Suc j < ?C" by simp
    have "elements q' ! j = d' ! ((unat (head q') + j) mod ?C)"
      using j size' by (simp add: nth_elements) (simp add: q'_def d'(2))
    also have "(unat (head q') + j) mod ?C = ?pos (Suc j)"
      unfolding h' by (simp add: mod_add_left_eq)
    also have "d' ! ?pos (Suc j) =
        (if 1 \<le> Suc j \<and> Suc j \<le> x then data q ! ?pos (Suc j - 1) else data q ! ?pos (Suc j))"
      using d'(3) j1C by blast
    also have "\<dots> = (if j < x then elements q ! j else elements q ! Suc j)"
      using j1 by (simp add: nth_elements)
    also have "\<dots> = (take x (elements q) @ drop (Suc x) (elements q)) ! j"
      using x j by (simp add: nth_without)
    finally show "elements q' ! j = (take x (elements q) @ drop (Suc x) (elements q)) ! j" .
  qed
  show thesis using res inv' size' el by (rule that)
qed

lemma EraseItemAtMoveBack_result:
  assumes inv: "queue_inv q" and x: "x < unat (Size q)"
  obtains q' where "EraseItemAtMoveBack asserts (of_nat x) q = Inr q'" "queue_inv q'"
    "unat (Size q') = unat (Size q) - 1"
    "elements q' = take x (elements q) @ drop (Suc x) (elements q)"
proof -
  let ?C = "length (data q)" and ?h = "unat (head q)" and ?n = "unat (Size q)"
    and ?t = "unat (tail q)"
  let ?pos = "\<lambda>p. (?h + p) mod ?C"
  define m where "m = ?n - 1 - x"
  have nC: "?n < ?C" using inv by (rule Size_le)
  have xm: "x + m = ?n - 1" using x by (simp add: m_def)
  with nC x have xmC: "x + m < ?C" by simp
  have pos: "0 < Size q" using inv x by (rule Size_pos)
  have "Suc x \<le> ?n" using x by simp
  then have "(of_nat (?n - Suc x) :: ulong) = of_nat ?n - of_nat (Suc x)" by (rule of_nat_diff)
  then have mw: "Size q - 1 - of_nat x = (of_nat m :: ulong)" by (simp add: m_def)
  from MoveBack_loop_shift [OF inv xmC, of 0]
  obtain d' where d': "EraseItemAtMoveBack_loop q (of_nat x) (of_nat m) 0 = Inr (q\<lparr>data := d'\<rparr>)"
    "length d' = ?C"
    "\<forall>p<?C. d' ! ?pos p = (if x \<le> p \<and> p < x + m then data q ! ?pos (p + 1) else data q ! ?pos p)"
    by auto
  let ?qt = "q\<lparr>tail := of_nat ((?t + ?C - 1) mod ?C)\<rparr>"
  define q' where "q' = ?qt\<lparr>data := d'\<rparr>"
  have n: "(tail q + maxElementsMask q + 1 - 1) AND maxElementsMask q
      = of_nat ((?t + ?C - 1) mod ?C)"
    using tail_dec_slot [OF inv] by (rule word_of_unat_eq)
  then have n': "(tail q + maxElementsMask q) AND maxElementsMask q
      = of_nat ((?t + ?C - 1) mod ?C)"
    by simp
  have res: "EraseItemAtMoveBack asserts (of_nat x) q = Inr q'"
    using pos by (simp only: EraseItemAtMoveBack_def Let_def mw d'(1) q'_def) (simp add: n')
  have Cpos: "0 < ?C" using inv by (rule length_data_pos)
  then have ltC: "(?t + ?C - 1) mod ?C < ?C" by simp
  have invt: "queue_inv ?qt" using inv ltC by (rule queue_inv_tail_update)
  have t': "unat (tail ?qt) = (?t + ?C - 1) mod ?C"
    using unat_index(1) [OF inv ltC] by simp
  have npos: "0 < ?n" using x by simp
  have sizet: "unat (Size ?qt) = ?n - 1"
  proof (rule Size_unique [OF invt])
    show "?n - 1 < length (data ?qt)" using nC by simp
    have "?t + ?C - 1 = ?t + (?C - 1)" using Cpos by linarith
    then have "(?t + ?C - 1) mod ?C = (?t + (?C - 1)) mod ?C" by (simp only:)
    also have "\<dots> = ((?h + ?n) mod ?C + (?C - 1)) mod ?C" using tail_nat [OF inv] by simp
    also have "\<dots> = (?h + ?n + (?C - 1)) mod ?C" by (simp add: mod_add_left_eq)
    also have "?h + ?n + (?C - 1) = (?h + (?n - 1)) + ?C" using npos Cpos by linarith
    also have "\<dots> mod ?C = (?h + (?n - 1)) mod ?C" by simp
    finally show "unat (tail ?qt) = (unat (head ?qt) + (?n - 1)) mod length (data ?qt)"
      unfolding t' by simp
  qed
  have inv': "queue_inv q'" unfolding q'_def using invt d'(2) by (simp add: queue_inv_data_update)
  have size': "unat (Size q') = ?n - 1" unfolding q'_def using sizet by simp
  have el: "elements q' = take x (elements q) @ drop (Suc x) (elements q)"
  proof (rule nth_equalityI)
    show "length (elements q') = length (take x (elements q) @ drop (Suc x) (elements q))"
      using size' x by simp
  next
    fix j assume "j < length (elements q')"
    then have j: "j < ?n - 1" using size' by simp
    then have j1: "Suc j < ?n" by simp
    with nC have jC: "j < ?C" by simp
    have "elements q' ! j = d' ! ?pos j"
      using j size' by (simp add: nth_elements) (simp add: q'_def d'(2))
    also have "\<dots> = (if x \<le> j \<and> j < x + m then data q ! ?pos (j + 1) else data q ! ?pos j)"
      using d'(3) jC by blast
    also have "\<dots> = (if j < x then elements q ! j else elements q ! Suc j)"
      using j j1 xm by (simp add: nth_elements)
    also have "\<dots> = (take x (elements q) @ drop (Suc x) (elements q)) ! j"
      using x j by (simp add: nth_without)
    finally show "elements q' ! j = (take x (elements q) @ drop (Suc x) (elements q)) ! j" .
  qed
  show thesis using res inv' size' el by (rule that)
qed

lemma observable_without:
  assumes "queue_inv q" and "queue_inv q'"
    and "elements q' = take x (elements q) @ drop (Suc x) (elements q)"
  shows "observable asserts q' = take x (observable asserts q) @ drop (Suc x) (observable asserts q)"
  using assms by (simp add: observable_elements take_map drop_map)

text \<open>
  C6. On a queue that satisfies the representation invariant, for every index \<open>i\<close>
  below \<open>Size()\<close> (so the queue is not empty), \<open>EraseItemAtMoveFront(i)\<close> and
  \<open>EraseItemAtMoveBack(i)\<close> both return normally, leave a queue with one element less,
  and what is read from it is the former sequence without its element at position \<open>i\<close>,
  the others in their order. \<open>EraseItemAt(i)\<close> is the first of the two when
  \<open>i \<le> Size() >> 1\<close> and the second otherwise. Nothing is assumed about where \<open>head\<close>
  and \<open>tail\<close> stand, so the occupied slots may wrap around the end of the array.
\<close>

theorem EraseItemAt_removes_one:
  assumes "queue_inv q" and "i < unat (Size q)"
  shows "(\<exists>q'. EraseItemAtMoveFront asserts (of_nat i) q = Inr q' \<and> queue_inv q'
          \<and> unat (Size q') = unat (Size q) - 1
          \<and> observable asserts q'
              = take i (observable asserts q) @ drop (Suc i) (observable asserts q))
    \<and> (\<exists>q'. EraseItemAtMoveBack asserts (of_nat i) q = Inr q' \<and> queue_inv q'
          \<and> unat (Size q') = unat (Size q) - 1
          \<and> observable asserts q'
              = take i (observable asserts q) @ drop (Suc i) (observable asserts q))
    \<and> (\<exists>q'. EraseItemAt asserts (of_nat i) q = Inr q' \<and> queue_inv q'
          \<and> unat (Size q') = unat (Size q) - 1
          \<and> observable asserts q'
              = take i (observable asserts q) @ drop (Suc i) (observable asserts q))
    \<and> EraseItemAt asserts (of_nat i) q =
        (if (of_nat i :: cint) \<le> drop_bit 1 (Size q)
         then EraseItemAtMoveFront asserts (of_nat i) q
         else EraseItemAtMoveBack asserts (of_nat i) q)"
proof -
  from assms obtain qf where qf: "EraseItemAtMoveFront asserts (of_nat i) q = Inr qf"
    "queue_inv qf" "unat (Size qf) = unat (Size q) - 1"
    "elements qf = take i (elements q) @ drop (Suc i) (elements q)"
    by (rule EraseItemAtMoveFront_result)
  from assms obtain qb where qb: "EraseItemAtMoveBack asserts (of_nat i) q = Inr qb"
    "queue_inv qb" "unat (Size qb) = unat (Size q) - 1"
    "elements qb = take i (elements q) @ drop (Suc i) (elements q)"
    by (rule EraseItemAtMoveBack_result)
  have f: "\<exists>q'. EraseItemAtMoveFront asserts (of_nat i) q = Inr q' \<and> queue_inv q'
          \<and> unat (Size q') = unat (Size q) - 1
          \<and> observable asserts q'
              = take i (observable asserts q) @ drop (Suc i) (observable asserts q)"
    using qf observable_without [OF assms(1) qf(2,4)] by blast
  have b: "\<exists>q'. EraseItemAtMoveBack asserts (of_nat i) q = Inr q' \<and> queue_inv q'
          \<and> unat (Size q') = unat (Size q) - 1
          \<and> observable asserts q'
              = take i (observable asserts q) @ drop (Suc i) (observable asserts q)"
    using qb observable_without [OF assms(1) qb(2,4)] by blast
  have d: "EraseItemAt asserts (of_nat i) q =
        (if (of_nat i :: cint) \<le> drop_bit 1 (Size q)
         then EraseItemAtMoveFront asserts (of_nat i) q
         else EraseItemAtMoveBack asserts (of_nat i) q)"
    by (simp add: EraseItemAt_def)
  have e: "\<exists>q'. EraseItemAt asserts (of_nat i) q = Inr q' \<and> queue_inv q'
          \<and> unat (Size q') = unat (Size q) - 1
          \<and> observable asserts q'
              = take i (observable asserts q) @ drop (Suc i) (observable asserts q)"
  proof (cases "(of_nat i :: cint) \<le> drop_bit 1 (Size q)")
    case True
    then show ?thesis using f unfolding d by simp
  next
    case False
    then show ?thesis using b unfolding d by simp
  qed
  from f b e d show ?thesis by (intro conjI)
qed

theorem EraseItemAt_removes_one_witness:
  "EraseItemAt True 1 \<lparr>data = [10, 20, 30, 40, 50, 60, 70, 80::nat], maxElementsMask = 7, head = 6, tail = 3\<rparr>
     = Inr \<lparr>data = [10, 20, 30, 40, 50, 60, 70, 70], maxElementsMask = 7, head = 7, tail = 3\<rparr>
   \<and> observable True \<lparr>data = [10, 20, 30, 40, 50, 60, 70, 70::nat], maxElementsMask = 7, head = 7, tail = 3\<rparr>
     = [Inr 70, Inr 10, Inr 20, Inr 30]
   \<and> EraseItemAt True 3 \<lparr>data = [10, 20, 30, 40, 50, 60, 70, 80::nat], maxElementsMask = 7, head = 6, tail = 3\<rparr>
     = Inr \<lparr>data = [10, 30, 30, 40, 50, 60, 70, 80], maxElementsMask = 7, head = 6, tail = 2\<rparr>
   \<and> observable True \<lparr>data = [10, 30, 30, 40, 50, 60, 70, 80::nat], maxElementsMask = 7, head = 6, tail = 2\<rparr>
     = [Inr 70, Inr 80, Inr 10, Inr 30]"
proof -
  let ?q = "\<lparr>data = [10, 20, 30, 40, 50, 60, 70, 80::nat], maxElementsMask = 7, head = 6, tail = 3\<rparr>"
  have inv: "queue_inv ?q" by code_simp
  have n: "unat (Size ?q) = 5" by code_simp
  have obs: "observable True ?q = [Inr 70, Inr 80, Inr 10, Inr 20, Inr 30]" by code_simp
  have e1: "EraseItemAt True 1 ?q
      = Inr \<lparr>data = [10, 20, 30, 40, 50, 60, 70, 70], maxElementsMask = 7, head = 7, tail = 3\<rparr>"
    by code_simp
  have e3: "EraseItemAt True 3 ?q
      = Inr \<lparr>data = [10, 30, 30, 40, 50, 60, 70, 80], maxElementsMask = 7, head = 6, tail = 2\<rparr>"
    by code_simp
  have "1 < unat (Size ?q)" "3 < unat (Size ?q)" unfolding n by simp_all
  from EraseItemAt_removes_one [OF inv this(1), of True]
    EraseItemAt_removes_one [OF inv this(2), of True]
  show ?thesis unfolding obs by (simp add: e1 e3)
qed

section \<open>One producer and one consumer\<close>









section \<open>The invariant and the public calls\<close>










lemma ucast_pow2:
  assumes "k < 32"
  shows "(ucast (2 ^ k :: u32) :: size_t) = 2 ^ k"
    and "unat (ucast (2 ^ k :: u32) :: size_t) = 2 ^ k"
    and "(ucast ((ucast (2 ^ k :: u32) :: size_t) - 1) :: ulong) = mask k"
proof -
  from assms have k64: "k < 64" by simp
  have "unat (ucast (2 ^ k :: u32) :: size_t) = unat (2 ^ k :: size_t)"
    using assms k64 by (simp only: unat_ucast_up unat_pow2_u32 unat_pow2_size_t)
  then show c: "(ucast (2 ^ k :: u32) :: size_t) = 2 ^ k" by (simp only: word_unat_eq_iff)
  show "unat (ucast (2 ^ k :: u32) :: size_t) = 2 ^ k"
    unfolding c using k64 by (rule unat_pow2_size_t)
  have "(2::nat) ^ k < 2 ^ 32" using assms by (intro power_strict_increasing) simp_all
  then have "(2::nat) ^ k - 1 < 2 ^ 32" by (rule less_imp_diff_less)
  then have "unat (ucast (mask k :: size_t) :: ulong) = unat (mask k :: ulong)"
    using assms k64 by (simp add: unat_ucast_down unat_mask_size_t unat_mask_ulong)
  then have m: "(ucast (mask k :: size_t) :: ulong) = mask k" by (simp only: word_unat_eq_iff)
  show "(ucast ((ucast (2 ^ k :: u32) :: size_t) - 1) :: ulong) = mask k"
    unfolding c using m by (simp add: mask_eq_exp_minus_1)
qed

lemma round_in_turn_range:
  assumes "i + m = 32"
  shows "round_in_turn m (2 ^ i) x = 0 \<or> (\<exists>k<32. round_in_turn m (2 ^ i) x = 2 ^ k)"
  using assms
proof (induction m arbitrary: i)
  case 0
  show ?case by simp
next
  case (Suc m)
  then have i: "i < 32" by simp
  show ?case
  proof (cases "x \<le> 2 ^ i")
    case True
    then have "round_in_turn (Suc m) (2 ^ i) x = 2 ^ i" by simp
    with i show ?thesis by blast
  next
    case False
    then have "round_in_turn (Suc m) (2 ^ i) x = round_in_turn m (2 ^ Suc i) x" by simp
    moreover have "Suc i + m = 32" using Suc.prems by simp
    ultimately show ?thesis using Suc.IH [of "Suc i"] by simp
  qed
qed

text \<open>Whatever the request, the rounded value is 0 or a 32-bit power of two.\<close>

lemma RoundUpToNextPow2_range:
  "RoundUpToNextPow2 x = 0 \<or> (\<exists>k<32. RoundUpToNextPow2 x = 2 ^ k)"
  using round_in_turn_range [of 0 32 x] by (simp add: RoundUpToNextPow2_def)

lemma above_Size_pow2:
  assumes "Size q < RoundUpToNextPow2 x"
  obtains k where "k < 32" "RoundUpToNextPow2 x = 2 ^ k" "unat (Size q) < 2 ^ k"
proof -
  from assms have "RoundUpToNextPow2 x \<noteq> 0" by (auto simp: word_less_nat_alt)
  with RoundUpToNextPow2_range [of x] obtain k where k: "k < 32" "RoundUpToNextPow2 x = 2 ^ k"
    by blast
  have "unat (Size q) < unat (2 ^ k :: u32)" using assms unfolding k(2) word_less_nat_alt .
  then have "unat (Size q) < 2 ^ k" using k(1) by (simp add: unat_pow2_u32)
  with k show thesis by (rule that)
qed

text \<open>
  \<open>Resize\<close> for any request whose rounded value \<open>2 ^ k\<close> is above the number of
  elements: it returns, with an array of \<open>2 ^ k\<close> slots that holds the same elements from
  slot 0 on.
\<close>

lemma Resize_rounded:
  assumes inv: "queue_inv q" and k: "k < 32" "RoundUpToNextPow2 (ucast n) = 2 ^ k"
    and pow2: "asserts \<longrightarrow> IS_POW2 n"
    and sz: "unat (Size q) < 2 ^ k"
  obtains q' where "Resize asserts junk n q = Inr q'" "queue_inv q'"
    "length (data q') = 2 ^ k" "maxElementsMask q' = mask k"
    "head q' = 0" "tail q' = Size q" "Size q' = Size q" "elements q' = elements q"
proof -
  note c = ucast_pow2 [OF k(1)]
  let ?nd = "new_array junk (2 ^ k)"
  have len: "length ?nd = 2 ^ k" by (simp add: new_array_def)
  from sz have "unat (Size q) \<le> length ?nd" using len by simp
  with Resize_loop_copy [OF inv, of 0 ?nd asserts]
  obtain nd' where nd': "Resize_loop asserts q 0 0 ?nd = Inr (Size q, nd')"
    "length nd' = 2 ^ k"
    "\<forall>j<2 ^ k. nd' ! j = (if j < unat (Size q) then elements q ! j else ?nd ! j)"
    using len by auto
  define q' where "q' = q\<lparr>data := nd', head := 0, tail := Size q, maxElementsMask := mask k\<rparr>"
  have res: "Resize asserts junk n q = Inr q'"
    using pow2 by (simp add: Resize_def Let_def k(2) c(2) c(3) nd'(1) q'_def)
  have um: "unat (mask k :: ulong) = 2 ^ k - 1" using k(1) by (rule unat_mask_ulong)
  have "Size q \<le> mask k" unfolding word_le_nat_alt um using sz by simp
  then have inv': "queue_inv q'"
    unfolding queue_inv_def q'_def using k(1) nd'(2) by auto
  have h0: "unat (head q') = 0" and t: "unat (tail q') = unat (Size q)"
    and l: "length (data q') = 2 ^ k"
    by (simp_all add: q'_def nd'(2))
  have size': "unat (Size q') = unat (Size q)"
    using inv' sz unfolding Size_nat [OF inv'] h0 t l by simp
  have el: "elements q' = elements q"
  proof (rule nth_equalityI)
    show "length (elements q') = length (elements q)" using size' by simp
  next
    fix j assume "j < length (elements q')"
    then have j: "j < unat (Size q)" using size' by simp
    with sz have j2: "j < 2 ^ k" by simp
    have "elements q' ! j = data q' ! ((unat (head q') + j) mod length (data q'))"
      using j size' by (simp add: nth_elements)
    also have "\<dots> = nd' ! j" using j2 by (simp add: h0 l) (simp add: q'_def)
    also have "\<dots> = elements q ! j" using nd'(3) j j2 by simp
    finally show "elements q' ! j = elements q ! j" .
  qed
  show thesis
  proof (rule that [of q'])
    show "Resize asserts junk n q = Inr q'" by fact
    show "queue_inv q'" by fact
    show "length (data q') = 2 ^ k" by fact
    show "maxElementsMask q' = mask k" by (simp add: q'_def)
    show "head q' = 0" by (simp add: q'_def)
    show "tail q' = Size q" by (simp add: q'_def)
    show "Size q' = Size q" using size' by (simp add: word_unat_eq_iff)
    show "elements q' = elements q" by fact
  qed
qed







section \<open>Capacity and Size\<close>









section \<open>The mask\<close>

text \<open>
  What the index computations need of a state: an array of \<open>2 ^ k\<close> slots and
  \<open>maxElementsMask = 2 ^ k - 1\<close>. Nothing is asked of \<open>head\<close> and \<open>tail\<close>.
\<close>

lemma and_mask_is_mod:
  assumes "k < 32" and "maxElementsMask q = mask k" and "length (data q) = 2 ^ k"
  shows "maxElementsMask q + 1 = 2 ^ k" and "unat (maxElementsMask q) + 1 = 2 ^ k"
    and "x AND maxElementsMask q = x mod (maxElementsMask q + 1)"
    and "unat (x AND maxElementsMask q) = unat x mod length (data q)"
proof -
  have "unat (2 ^ k :: ulong) = 2 ^ k" using assms(1) by (rule unat_pow2_u32)
  then have "0 < unat (2 ^ k :: ulong)" by simp
  then have pos: "0 < (2 ^ k :: ulong)" by (simp only: word_less_nat_alt unat_0)
  show m1: "maxElementsMask q + 1 = 2 ^ k" unfolding assms(2) by (simp add: mask_eq_exp_minus_1)
  show "unat (maxElementsMask q) + 1 = 2 ^ k"
    unfolding assms(2) unat_mask_ulong [OF assms(1)] by simp
  show "x AND maxElementsMask q = x mod (maxElementsMask q + 1)"
    unfolding m1 unfolding assms(2) using word_mod_2p_is_mask [OF pos, of x] by simp
  show "unat (x AND maxElementsMask q) = unat x mod length (data q)"
    unfolding assms(2,3) by (rule and_mask_nat)
qed














section \<open>Growing a queue\<close>

text \<open>
  On a queue that satisfies the representation invariant: \<open>Resize(n)\<close> for a request
  whose rounded size is above \<open>Size()\<close> (a power of two when assertions are compiled in)
  returns normally, and the new queue has the same \<open>Size()\<close> and the same sequence
  \<open>*ItemAt(0)\<close>, ..., \<open>*ItemAt(Size() - 1)\<close>; \<open>DoubleCapacity()\<close> does the same with twice
  the slots when the array has at most \<open>2 ^ 30\<close> of them; and \<open>InsertWithResize(value)\<close>
  returns normally with \<open>value\<close> added after the former sequence, the array doubled
  exactly when the queue was full, unless the queue is full and its array has \<open>2 ^ 31\<close>
  slots.
\<close>

lemma InsertWithResize_appends:
  fixes q :: "'a WaitFreeQueue"
  assumes "queue_inv q"
  shows "((asserts \<longrightarrow> IS_POW2 n) \<and> Size q < RoundUpToNextPow2 (ucast n) \<longrightarrow>
            (\<exists>q'. Resize asserts junk n q = Inr q' \<and> queue_inv q'
               \<and> maxElementsMask q' + 1 = RoundUpToNextPow2 (ucast n)
               \<and> length (data q') = unat (RoundUpToNextPow2 (ucast n))
               \<and> Size q' = Size q \<and> observable asserts' q' = observable asserts' q))
    \<and> (maxElementsMask q < 2 ^ 30 \<longrightarrow>
            (\<exists>q'. DoubleCapacity asserts junk q = Inr q' \<and> queue_inv q'
               \<and> length (data q') = 2 * length (data q)
               \<and> Size q' = Size q \<and> observable asserts' q' = observable asserts' q))
    \<and> (maxElementsMask q < 2 ^ 30 \<or> Size q \<noteq> Capacity q \<longrightarrow>
            (\<exists>q'. InsertWithResize asserts junk v q = Inr q' \<and> queue_inv q'
               \<and> observable asserts' q' = observable asserts' q @ [Inr v]
               \<and> unat (Size q') = unat (Size q) + 1
               \<and> length (data q')
                   = (if Size q = Capacity q then 2 * length (data q) else length (data q))))"
proof (intro conjI impI)
  assume "(asserts \<longrightarrow> IS_POW2 n) \<and> Size q < RoundUpToNextPow2 (ucast n)"
  then have h: "asserts \<longrightarrow> IS_POW2 n" "Size q < RoundUpToNextPow2 (ucast n)" by simp_all
  from h(2) obtain k where k: "k < 32" "RoundUpToNextPow2 (ucast n) = 2 ^ k"
    "unat (Size q) < 2 ^ k"
    by (rule above_Size_pow2)
  from assms k(1,2) h(1) k(3) obtain q' where r: "Resize asserts junk n q = Inr q'"
    "queue_inv q'" "length (data q') = 2 ^ k" "maxElementsMask q' = mask k"
    "Size q' = Size q" "elements q' = elements q"
    by (rule Resize_rounded)
  have "observable asserts' q' = observable asserts' q"
    unfolding observable_elements [OF assms] observable_elements [OF r(2)] r(6) ..
  moreover have "maxElementsMask q' + 1 = RoundUpToNextPow2 (ucast n)"
    unfolding k(2) using k(1) r(4,3) by (rule and_mask_is_mod(1))
  moreover have "length (data q') = unat (RoundUpToNextPow2 (ucast n))"
    unfolding k(2) r(3) using k(1) by (simp add: unat_pow2_u32)
  ultimately
  show "\<exists>q'. Resize asserts junk n q = Inr q' \<and> queue_inv q'
      \<and> maxElementsMask q' + 1 = RoundUpToNextPow2 (ucast n)
      \<and> length (data q') = unat (RoundUpToNextPow2 (ucast n))
      \<and> Size q' = Size q \<and> observable asserts' q' = observable asserts' q"
    using r(1,2,5) by simp
next
  assume small: "maxElementsMask q < 2 ^ 30"
  with assms obtain q' where d: "DoubleCapacity asserts junk q = Inr q'" "queue_inv q'"
    "length (data q') = 2 * length (data q)"
    "Size q' = Size q" "elements q' = elements q"
    by (rule DoubleCapacity_result)
  have "observable asserts' q' = observable asserts' q"
    unfolding observable_elements [OF assms] observable_elements [OF d(2)] d(5) ..
  with d(1-4)
  show "\<exists>q'. DoubleCapacity asserts junk q = Inr q' \<and> queue_inv q'
      \<and> length (data q') = 2 * length (data q)
      \<and> Size q' = Size q \<and> observable asserts' q' = observable asserts' q"
    by simp
next
  assume c: "maxElementsMask q < 2 ^ 30 \<or> Size q \<noteq> Capacity q"
  have "\<exists>q'. InsertWithResize asserts junk v q = Inr q' \<and> queue_inv q'
      \<and> elements q' = elements q @ [v] \<and> unat (Size q') = unat (Size q) + 1
      \<and> length (data q') =
         (if unat (Size q) = length (data q) - 1 then 2 * length (data q) else length (data q))"
  proof (cases "unat (Size q) = length (data q) - 1")
    case True
    with c have "maxElementsMask q < 2 ^ 30" unfolding Capacity_eq_iff [OF assms] by simp
    with assms show ?thesis by (rule InsertWithResize_result) blast
  next
    case False
    with assms obtain q' where q': "Insert v q = Inr (True, q')" "queue_inv q'"
      "length (data q') = length (data q)"
      "unat (Size q') = unat (Size q) + 1" "elements q' = elements q @ [v]"
      by (rule Insert_append)
    have "InsertWithResize asserts junk v q = Inr q'" by (simp add: InsertWithResize_def q'(1))
    with q'(2-5) False show ?thesis by simp
  qed
  then obtain q' where i: "InsertWithResize asserts junk v q = Inr q'" "queue_inv q'"
    "elements q' = elements q @ [v]" "unat (Size q') = unat (Size q) + 1"
    "length (data q') =
       (if unat (Size q) = length (data q) - 1 then 2 * length (data q) else length (data q))"
    by blast
  have "observable asserts' q' = observable asserts' q @ [Inr v]"
    unfolding observable_elements [OF assms] observable_elements [OF i(2)] i(3) by simp
  with i(1,2,4,5)
  show "\<exists>q'. InsertWithResize asserts junk v q = Inr q' \<and> queue_inv q'
      \<and> observable asserts' q' = observable asserts' q @ [Inr v]
      \<and> unat (Size q') = unat (Size q) + 1
      \<and> length (data q')
          = (if Size q = Capacity q then 2 * length (data q) else length (data q))"
    unfolding Capacity_eq_iff [OF assms] by simp
qed

lemma InsertWithResize_appends_example:
  "InsertWithResize True (\<lambda>i. 0) 5 \<lparr>data = [9, 0, 7, 8::nat], maxElementsMask = 3, head = 2, tail = 1\<rparr>
     = Inr \<lparr>data = [7, 8, 9, 5, 0, 0, 0, 0], maxElementsMask = 7, head = 0, tail = 4\<rparr>
   \<and> observable True \<lparr>data = [7, 8, 9, 5, 0, 0, 0, 0::nat], maxElementsMask = 7, head = 0, tail = 4\<rparr>
     = [Inr 7, Inr 8, Inr 9, Inr 5]
   \<and> Resize True (\<lambda>i. 0) 16 \<lparr>data = [9, 0, 7, 8::nat], maxElementsMask = 3, head = 2, tail = 1\<rparr>
     = Inr \<lparr>data = [7, 8, 9, 0, 0, 0, 0, 0, 0, 0, 0, 0, 0, 0, 0, 0], maxElementsMask = 15, head = 0, tail = 3\<rparr>
   \<and> observable True \<lparr>data = [7, 8, 9, 0, 0, 0, 0, 0, 0, 0, 0, 0, 0, 0, 0, 0::nat], maxElementsMask = 15, head = 0, tail = 3\<rparr>
     = [Inr 7, Inr 8, Inr 9]"
proof -
  let ?q0 = "\<lparr>data = [9, 0, 7, 8::nat], maxElementsMask = 3, head = 2, tail = 1\<rparr>"
  let ?q1 = "\<lparr>data = [7, 8, 9, 5, 0, 0, 0, 0::nat], maxElementsMask = 7, head = 0, tail = 4\<rparr>"
  let ?q2 = "\<lparr>data = [7, 8, 9, 0, 0, 0, 0, 0, 0, 0, 0, 0, 0, 0, 0, 0::nat], maxElementsMask = 15, head = 0, tail = 3\<rparr>"
  have inv: "queue_inv ?q0" by code_simp
  have obs: "observable True ?q0 = [Inr 7, Inr 8, Inr 9]" by code_simp
  have i: "InsertWithResize True (\<lambda>i. 0) 5 ?q0 = Inr ?q1" by code_simp
  have r: "Resize True (\<lambda>i. 0) 16 ?q0 = Inr ?q2" by code_simp
  have small: "maxElementsMask ?q0 < 2 ^ 30 \<or> Size ?q0 \<noteq> Capacity ?q0" by simp
  have n: "(True \<longrightarrow> IS_POW2 16) \<and> Size ?q0 < RoundUpToNextPow2 (ucast (16::size_t))"
    by code_simp
  note inst = InsertWithResize_appends [OF inv, of True _ "\<lambda>i. 0" True]
  from inst [of 16, THEN conjunct1, rule_format, OF n]
  have a: "observable True ?q2 = [Inr 7, Inr 8, Inr 9]" unfolding r obs by simp
  from inst [of 16 5, THEN conjunct2, THEN conjunct2, rule_format, OF small]
  have b: "observable True ?q1 = [Inr 7, Inr 8, Inr 9, Inr 5]" unfolding i obs by simp
  from i b r a show ?thesis by (intro conjI)
qed

text \<open>
  C5. The excepted case is where the code departs from the claim, from the comment of
  \<open>DoubleCapacity\<close> ("Resizes this queue to hold twice the amount of maximum elements")
  and from the \<open>assert(success)\<close> of \<open>InsertWithResize\<close>. The largest queue that can be
  constructed has \<open>2 ^ 31\<close> slots. Once it holds \<open>2 ^ 31 - 1\<close> elements it is full:
  \<open>Insert\<close> returns false. \<open>DoubleCapacity\<close> then asks \<open>Resize\<close> for
  \<open>2 * (maxElementsMask + 1)\<close> slots, which is 0 in the 32 bits of \<open>unsigned long\<close> (and
  in the 32 bits \<open>Resize\<close> cuts its argument to, where \<open>unsigned long\<close> is wider). The
  new array is not twice the old one, and copying the elements into it writes outside
  it: with assertions compiled out \<open>InsertWithResize\<close> ends in that write, and the value
  is not added. (With \<open>RoundUpToNextPow2\<close> as modelled the new array has one slot and
  the second element is the first to fall outside.)
\<close>

theorem InsertWithResize_full_largest:
  "length (data \<lparr>data = replicate (2 ^ 31) (0::nat), maxElementsMask = 2 ^ 31 - 1, head = 0, tail = 2 ^ 31 - 1\<rparr>)
     = 2 ^ 31
   \<and> Size \<lparr>data = replicate (2 ^ 31) (0::nat), maxElementsMask = 2 ^ 31 - 1, head = 0, tail = 2 ^ 31 - 1\<rparr>
     = Capacity \<lparr>data = replicate (2 ^ 31) (0::nat), maxElementsMask = 2 ^ 31 - 1, head = 0, tail = 2 ^ 31 - 1\<rparr>
   \<and> Insert 1 \<lparr>data = replicate (2 ^ 31) (0::nat), maxElementsMask = 2 ^ 31 - 1, head = 0, tail = 2 ^ 31 - 1\<rparr>
     = Inr (False, \<lparr>data = replicate (2 ^ 31) 0, maxElementsMask = 2 ^ 31 - 1, head = 0, tail = 2 ^ 31 - 1\<rparr>)
   \<and> (ucast (2 * (maxElementsMask
         \<lparr>data = replicate (2 ^ 31) (0::nat), maxElementsMask = 2 ^ 31 - 1, head = 0, tail = 2 ^ 31 - 1\<rparr>
         + 1)) :: size_t) = 0
   \<and> InsertWithResize False (\<lambda>i. 0) 1
       \<lparr>data = replicate (2 ^ 31) (0::nat), maxElementsMask = 2 ^ 31 - 1, head = 0, tail = 2 ^ 31 - 1\<rparr>
     = Inl OutOfBounds"
proof -
  let ?q = "\<lparr>data = replicate (2 ^ 31) (0::nat), maxElementsMask = 2 ^ 31 - 1, head = 0, tail = 2 ^ 31 - 1\<rparr>"
  have len: "length (data ?q) = 2 ^ 31" by simp
  have sz: "Size ?q = 2 ^ 31 - 1" by (simp add: Size_def)
  have cap: "Size ?q = Capacity ?q" unfolding sz by (simp add: Capacity_def)
  have ins: "Insert 1 ?q = Inr (False, ?q)" by (simp add: Insert_def)
  have arg: "(ucast (2 * (maxElementsMask ?q + 1)) :: size_t) = 0" by simp
  have r1: "(ucast (RoundUpToNextPow2 (ucast (0::size_t))) :: size_t) = 1" by code_simp
  have sz': "Size \<lparr>data = replicate 2147483648 (0::nat), maxElementsMask = 2147483647,
      head = 0, tail = 2147483647\<rparr> = 2147483647"
    using sz by simp
  have l0: "Resize_loop False ?q 0 0 [0] = Inl OutOfBounds"
    apply (subst Resize_loop.simps)
    apply (simp add: sz' ItemAt_def deref_def load_def store_def)
    apply (subst Resize_loop.simps)
    apply (simp add: sz' ItemAt_def deref_def load_def store_def)
    done
  have df: "DoubleCapacity False (\<lambda>i. 0) ?q = Inl OutOfBounds"
    unfolding DoubleCapacity_def arg Resize_def r1 using l0 by (simp add: new_array_def)
  have f: "InsertWithResize False (\<lambda>i. 0) 1 ?q = Inl OutOfBounds"
    unfolding InsertWithResize_def ins using df by simp
  from len cap ins arg f show ?thesis by (intro conjI)
qed

end
